theory Spec2Isabelle
  imports Complex_Main "HOL-Library.Log_Nat"
begin

section \<open>Load balancer\<close>

text \<open>
  \<^verbatim>\<open>type Backend struct { URL *url.URL; Proxy *httputil.ReverseProxy; Alive bool; mu sync.Mutex }\<close>
  The URL is kept as its string form (the only use the gateway makes of it), the proxy is
  an external collaborator and appears in the dispatcher as a parameter.
\<close>

record Backend =
  URL :: string
  Alive :: bool

text \<open>
  \<^verbatim>\<open>type LoadBalancer struct { backends []*Backend; current int; mu sync.Mutex }\<close>
  The slice of pointers is the list of the backends themselves; a \<^verbatim>\<open>*Backend\<close> is its
  position in that list. The field \<open>current\<close> starts at 0 and is only ever assigned
  \<^verbatim>\<open>(idx + 1) % len(lb.backends)\<close>, so it is a natural number.
\<close>

record LoadBalancer =
  backends :: "Backend list"
  current :: nat

text \<open>
  The loop of \<^verbatim>\<open>LoadBalancer.Next\<close>:
  \<^verbatim>\<open>
  for i := 0; i < len(lb.backends); i++ {
      idx := (start + i) % len(lb.backends)
      if lb.backends[idx].Alive { ...; return lb.backends[idx] }
  }
  return nil\<close>
  It yields the index at which the loop returns, or \<open>None\<close> when it runs to its end.
\<close>

function Next_loop :: "Backend list \<Rightarrow> nat \<Rightarrow> nat \<Rightarrow> nat option" where
  "Next_loop bs start i =
     (if i < length bs then
        (if Alive (bs ! ((start + i) mod length bs)) then Some ((start + i) mod length bs)
         else Next_loop bs start (i + 1))
      else None)"
  by pat_completeness auto
termination
  by (relation "measure (\<lambda>(bs, start, i). length bs - i)") auto

declare Next_loop.simps [simp del]

text \<open>
  \<^verbatim>\<open>func (lb *LoadBalancer) Next() *Backend\<close>: the result is the position of the returned
  backend (\<open>None\<close> for \<^verbatim>\<open>nil\<close>) and the load balancer after the call.
\<close>

definition Next :: "LoadBalancer \<Rightarrow> nat option \<times> LoadBalancer" where
  "Next lb =
     (if length (backends lb) = 0 then (None, lb)
      else (case Next_loop (backends lb) (current lb) 0 of
              Some idx \<Rightarrow> (Some idx, lb\<lparr>current := (idx + 1) mod length (backends lb)\<rparr>)
            | None \<Rightarrow> (None, lb)))"

text \<open>\<open>n\<close> consecutive calls of \<^verbatim>\<open>Next\<close>, with no write to a liveness flag in between:
  the results in call order and the final load balancer.\<close>

fun Next_calls :: "nat \<Rightarrow> LoadBalancer \<Rightarrow> nat option list \<times> LoadBalancer" where
  "Next_calls 0 lb = ([], lb)"
| "Next_calls (Suc n) lb =
     (case Next lb of (r, lb') \<Rightarrow> (case Next_calls n lb' of (rs, lb'') \<Rightarrow> (r # rs, lb'')))"

section \<open>float64 arithmetic\<close>

text \<open>
  A \<^verbatim>\<open>float64\<close> is the real number it denotes. Go evaluates \<^verbatim>\<open>+\<close>, \<^verbatim>\<open>-\<close>,
  \<^verbatim>\<open>*\<close>, \<^verbatim>\<open>/\<close> and the conversion \<^verbatim>\<open>float64(n)\<close> by computing the exact result and
  rounding it to the nearest number with a 53-bit significand, ties to the even
  significand (IEEE 754 binary64; each operation is rounded on its own, as on amd64).
  The exponent range is not modelled: the values formed from \<^verbatim>\<open>int64\<close> limits and
  durations stay far inside it.

  \<open>binade x\<close> is the exponent \<open>k\<close> with \<open>2 powi k \<le> \<bar>x\<bar>\<close> and \<open>\<bar>x\<bar> < 2 powi (k + 1)\<close>,
  for \<open>x \<noteq> 0\<close>.
\<close>

definition binade :: "real \<Rightarrow> int" where
  "binade x = (if 1 \<le> \<bar>x\<bar> then bitlen \<lfloor>\<bar>x\<bar>\<rfloor> - 1 else - bitlen (\<lceil>1 / \<bar>x\<bar>\<rceil> - 1))"

text \<open>The nearest integer, a tie going to the even one.\<close>

definition round_half_even :: "real \<Rightarrow> int" where
  "round_half_even z =
     (let f = \<lfloor>z\<rfloor>
      in if z - of_int f < 1 / 2 then f
         else if 1 / 2 < z - of_int f then f + 1
         else if even f then f else f + 1)"

text \<open>Rounding to \<^verbatim>\<open>float64\<close>: the nearest multiple of \<open>2 powi (k - 52)\<close> in the binade \<open>k\<close>.\<close>

definition round64 :: "real \<Rightarrow> real" where
  "round64 x =
     (if x = 0 then 0
      else of_int (round_half_even (x / 2 powi (binade x - 52))) * 2 powi (binade x - 52))"

text \<open>A real number is a \<^verbatim>\<open>float64\<close> value when rounding leaves it as it is.\<close>

definition is_float64 :: "real \<Rightarrow> bool" where
  "is_float64 x \<longleftrightarrow> round64 x = x"

text \<open>\<^verbatim>\<open>float64(n)\<close> and the four operations.\<close>

definition float64_of_int :: "int \<Rightarrow> real" where
  "float64_of_int n = round64 (of_int n)"

definition fadd :: "real \<Rightarrow> real \<Rightarrow> real" where
  "fadd a b = round64 (a + b)"

definition fsub :: "real \<Rightarrow> real \<Rightarrow> real" where
  "fsub a b = round64 (a - b)"

definition fmul :: "real \<Rightarrow> real \<Rightarrow> real" where
  "fmul a b = round64 (a * b)"

definition fdiv :: "real \<Rightarrow> real \<Rightarrow> real" where
  "fdiv a b = round64 (a / b)"

section \<open>Time\<close>

text \<open>
  A \<^verbatim>\<open>time.Time\<close> returned by \<^verbatim>\<open>time.Now()\<close> is its monotonic clock reading, an
  \<^verbatim>\<open>int64\<close> count of nanoseconds; a \<^verbatim>\<open>time.Duration\<close> is an \<^verbatim>\<open>int64\<close> count of
  nanoseconds. \<^verbatim>\<open>t.Sub(u)\<close> is the difference, held at the largest or smallest
  \<^verbatim>\<open>Duration\<close> when it is out of range.
\<close>

definition Sub :: "int \<Rightarrow> int \<Rightarrow> int" where
  "Sub t u =
     (let d = t - u
      in if 9223372036854775807 < d then 9223372036854775807
         else if d < - 9223372036854775808 then - 9223372036854775808
         else d)"

text \<open>Go's integer \<^verbatim>\<open>/\<close> and \<^verbatim>\<open>%\<close> truncate towards zero.\<close>

definition go_quot :: "int \<Rightarrow> int \<Rightarrow> int" where
  "go_quot a b = sgn a * sgn b * (\<bar>a\<bar> div \<bar>b\<bar>)"

definition go_rem :: "int \<Rightarrow> int \<Rightarrow> int" where
  "go_rem a b = sgn a * (\<bar>a\<bar> mod \<bar>b\<bar>)"

text \<open>
  \<^verbatim>\<open>func (d Duration) Seconds() float64 {
      sec := d / Second; nsec := d % Second
      return float64(sec) + float64(nsec)/1e9 }\<close>
\<close>

definition Seconds :: "int \<Rightarrow> real" where
  "Seconds d =
     (let sec = go_quot d 1000000000;
          nsec = go_rem d 1000000000
      in fadd (float64_of_int sec) (fdiv (float64_of_int nsec) 1000000000))"

section \<open>Token buckets and the rate limiter\<close>

text \<open>
  \<^verbatim>\<open>type TokenBucket struct { tokens, capacity, refillRate float64; lastRefill time.Time }\<close>
\<close>

record TokenBucket =
  tokens :: real
  capacity :: real
  refillRate :: real
  lastRefill :: int

text \<open>\<^verbatim>\<open>func min(a, b float64) float64 { if a < b { return a }; return b }\<close>\<close>

definition min_float :: "real \<Rightarrow> real \<Rightarrow> real" where
  "min_float a b = (if a < b then a else b)"

text \<open>
  \<^verbatim>\<open>func (tb *TokenBucket) refill()\<close>; its \<^verbatim>\<open>time.Now()\<close> is the argument \<open>now\<close>.
  \<^verbatim>\<open>
  elapsed := now.Sub(tb.lastRefill).Seconds()
  tb.tokens = min(tb.capacity, tb.tokens+elapsed*tb.refillRate)
  tb.lastRefill = now\<close>
\<close>

definition refill :: "int \<Rightarrow> TokenBucket \<Rightarrow> TokenBucket" where
  "refill now tb =
     (let elapsed = Seconds (Sub now (lastRefill tb))
      in tb\<lparr>tokens := min_float (capacity tb) (fadd (tokens tb) (fmul elapsed (refillRate tb))),
             lastRefill := now\<rparr>)"

text \<open>
  \<^verbatim>\<open>type RateLimiter struct { ipLimits, keyLimits map[string]*TokenBucket; mu sync.RWMutex }\<close>
  Every bucket is allocated by the function that stores it, so no two map entries alias
  and a map from identities to buckets is the whole state.
\<close>

record RateLimiter =
  ipLimits :: "string \<rightharpoonup> TokenBucket"
  keyLimits :: "string \<rightharpoonup> TokenBucket"

text \<open>
  \<^verbatim>\<open>func (rl *RateLimiter) allowIP(ip string, limit int) bool\<close>. The function reads the
  clock twice: \<open>t_new\<close> is the \<^verbatim>\<open>time.Now()\<close> of the bucket literal (read only when the
  identity has no bucket yet), \<open>t_refill\<close> the one inside \<^verbatim>\<open>refill\<close>. The bucket literal
  is \<^verbatim>\<open>float64(limit)\<close>, \<^verbatim>\<open>float64(limit)\<close>, \<^verbatim>\<open>float64(limit) / 60.0\<close>, and
  \<^verbatim>\<open>bucket.tokens--\<close> subtracts 1 in \<^verbatim>\<open>float64\<close>.
\<close>

definition allowIP :: "RateLimiter \<Rightarrow> string \<Rightarrow> int \<Rightarrow> int \<Rightarrow> int \<Rightarrow> bool \<times> RateLimiter" where
  "allowIP rl ip limit t_new t_refill =
     (let bucket = (case ipLimits rl ip of
                      Some b \<Rightarrow> b
                    | None \<Rightarrow> \<lparr>tokens = float64_of_int limit, capacity = float64_of_int limit,
                                refillRate = fdiv (float64_of_int limit) 60, lastRefill = t_new\<rparr>);
          bucket = refill t_refill bucket
      in if tokens bucket \<ge> 1
         then (True, rl\<lparr>ipLimits := (ipLimits rl)(ip \<mapsto> bucket\<lparr>tokens := fsub (tokens bucket) 1\<rparr>)\<rparr>)
         else (False, rl\<lparr>ipLimits := (ipLimits rl)(ip \<mapsto> bucket)\<rparr>))"

text \<open>\<^verbatim>\<open>func (rl *RateLimiter) allowKey(key string, limit int) bool\<close>\<close>

definition allowKey :: "RateLimiter \<Rightarrow> string \<Rightarrow> int \<Rightarrow> int \<Rightarrow> int \<Rightarrow> bool \<times> RateLimiter" where
  "allowKey rl key limit t_new t_refill =
     (let bucket = (case keyLimits rl key of
                      Some b \<Rightarrow> b
                    | None \<Rightarrow> \<lparr>tokens = float64_of_int limit, capacity = float64_of_int limit,
                                refillRate = fdiv (float64_of_int limit) 60, lastRefill = t_new\<rparr>);
          bucket = refill t_refill bucket
      in if tokens bucket \<ge> 1
         then (True, rl\<lparr>keyLimits := (keyLimits rl)(key \<mapsto> bucket\<lparr>tokens := fsub (tokens bucket) 1\<rparr>)\<rparr>)
         else (False, rl\<lparr>keyLimits := (keyLimits rl)(key \<mapsto> bucket)\<rparr>))"

text \<open>
  The fields of \<^verbatim>\<open>Config\<close> that the request path reads. \<^verbatim>\<open>APIKeys\<close> is a
  \<^verbatim>\<open>map[string]bool\<close>: reading a missing key gives \<^verbatim>\<open>false\<close>.
\<close>

record Config =
  RateLimitPerIP :: int
  RateLimitPerKey :: int
  APIKeys :: "string \<rightharpoonup> bool"

definition APIKeys_get :: "Config \<Rightarrow> string \<Rightarrow> bool" where
  "APIKeys_get c k = (case APIKeys c k of Some v \<Rightarrow> v | None \<Rightarrow> False)"

text \<open>The clock readings of one call of \<^verbatim>\<open>Allow\<close>, in the order the code takes them.\<close>

record AllowClock =
  ip_new :: int
  ip_refill :: int
  key_new :: int
  key_refill :: int

text \<open>
  \<^verbatim>\<open>func (rl *RateLimiter) Allow(ip, key string, config *Config) bool\<close>; the
  \<^verbatim>\<open>&&\<close> calls \<^verbatim>\<open>allowKey\<close> only for a non-empty key.
\<close>

definition Allow :: "RateLimiter \<Rightarrow> string \<Rightarrow> string \<Rightarrow> Config \<Rightarrow> AllowClock \<Rightarrow> bool \<times> RateLimiter" where
  "Allow rl ip key config clk =
     (case allowIP rl ip (RateLimitPerIP config) (ip_new clk) (ip_refill clk) of
        (okIP, rl1) \<Rightarrow>
          if \<not> okIP then (False, rl1)
          else if key \<noteq> [] then
            (case allowKey rl1 key (RateLimitPerKey config) (key_new clk) (key_refill clk) of
               (okKey, rl2) \<Rightarrow> if \<not> okKey then (False, rl2) else (True, rl2))
          else (True, rl1))"

text \<open>
  The rate limiter \<^verbatim>\<open>NewGateway\<close> builds:
  \<^verbatim>\<open>&RateLimiter{ipLimits: make(map[string]*TokenBucket), keyLimits: make(map[string]*TokenBucket)}\<close>
\<close>

definition NewRateLimiter :: RateLimiter where
  "NewRateLimiter = \<lparr>ipLimits = Map.empty, keyLimits = Map.empty\<rparr>"

text \<open>
  Consecutive calls of \<^verbatim>\<open>Allow\<close> under one configuration, each with its client IP, its
  API key and its clock readings: the results in call order and the final rate limiter.
\<close>

fun Allow_calls :: "RateLimiter \<Rightarrow> Config \<Rightarrow> (string \<times> string \<times> AllowClock) list \<Rightarrow> bool list \<times> RateLimiter" where
  "Allow_calls rl config [] = ([], rl)"
| "Allow_calls rl config ((ip, key, clk) # calls) =
     (case Allow rl ip key config clk of
        (ok, rl') \<Rightarrow> (case Allow_calls rl' config calls of (oks, rl'') \<Rightarrow> (ok # oks, rl'')))"

text \<open>The clock readings of one call in the order they are taken.\<close>

definition clock_readings :: "string \<times> string \<times> AllowClock \<Rightarrow> int list" where
  "clock_readings call =
     (case call of (ip, key, clk) \<Rightarrow> [ip_new clk, ip_refill clk, key_new clk, key_refill clk])"

subsection \<open>The token bucket as the specification words it\<close>

text \<open>
  \<open>tryConsume(now)\<close>: refill \<open>tokens = min(capacity, tokens + elapsed * refillRate)\<close> with
  \<open>elapsed = now - lastRefill\<close> in seconds, set \<open>lastRefill = now\<close>; then subtract 1 and
  allow when \<open>tokens \<ge> 1\<close>, deny otherwise. The numbers are floating-point: every
  operation is the \<^verbatim>\<open>float64\<close> one.
\<close>

definition spec_tryConsume :: "int \<Rightarrow> TokenBucket \<Rightarrow> bool \<times> TokenBucket" where
  "spec_tryConsume now tb =
     (let refilled = tb\<lparr>tokens := min (capacity tb)
                                    (fadd (tokens tb)
                                       (fmul (Seconds (Sub now (lastRefill tb))) (refillRate tb))),
                        lastRefill := now\<rparr>
      in if tokens refilled \<ge> 1 then (True, refilled\<lparr>tokens := fsub (tokens refilled) 1\<rparr>)
         else (False, refilled))"

text \<open>
  Look up, or lazily create, the bucket of an identity: a new bucket is full, with
  \<open>capacity = limit\<close> and \<open>refillRate = limit / 60.0\<close> as \<^verbatim>\<open>float64\<close> values.
\<close>

definition spec_bucket_for :: "(string \<rightharpoonup> TokenBucket) \<Rightarrow> string \<Rightarrow> int \<Rightarrow> int \<Rightarrow> TokenBucket" where
  "spec_bucket_for m ident limit t_new =
     (case m ident of
        Some b \<Rightarrow> b
      | None \<Rightarrow> \<lparr>tokens = float64_of_int limit, capacity = float64_of_int limit,
                  refillRate = fdiv (float64_of_int limit) 60, lastRefill = t_new\<rparr>)"

section \<open>Health checker\<close>

text \<open>
  The outcome of \<^verbatim>\<open>resp, err := client.Get(healthURL)\<close>: whether \<^verbatim>\<open>err != nil\<close>
  (timeout, connection error), and the status code of the response when \<^verbatim>\<open>resp != nil\<close>.
\<close>

record ProbeResult =
  probe_err :: bool
  probe_status :: "int option"

text \<open>
  \<^verbatim>\<open>func (g *Gateway) checkBackendHealth(backend *Backend)\<close>: the backend after the
  probe and the lines passed to \<^verbatim>\<open>log.Printf\<close>. \<^verbatim>\<open>http.StatusOK\<close> is 200.
\<close>

definition checkBackendHealth :: "Backend \<Rightarrow> ProbeResult \<Rightarrow> Backend \<times> string list" where
  "checkBackendHealth backend pr =
     (let wasAlive = Alive backend
      in if probe_err pr \<or> (case probe_status pr of Some code \<Rightarrow> code \<noteq> 200 | None \<Rightarrow> False)
         then (backend\<lparr>Alive := False\<rparr>,
               if wasAlive then [''Backend '' @ URL backend @ '' is now unhealthy''] else [])
         else (backend\<lparr>Alive := True\<rparr>,
               if \<not> wasAlive then [''Backend '' @ URL backend @ '' is now healthy''] else []))"

section \<open>Gateway dispatcher\<close>

text \<open>
  What \<^verbatim>\<open>handleRequest\<close> reads of an \<^verbatim>\<open>*http.Request\<close>: \<^verbatim>\<open>r.Method\<close>,
  \<^verbatim>\<open>r.URL.Path\<close>, \<^verbatim>\<open>r.RemoteAddr\<close> and \<^verbatim>\<open>r.Header.Get("X-API-Key")\<close> (empty when
  the header is absent).
\<close>

record Request =
  req_Method :: string
  req_Path :: string
  RemoteAddr :: string
  X_API_Key :: string

text \<open>\<^verbatim>\<open>type LogEntry struct\<close>, field by field.\<close>

record LogEntry =
  Timestamp :: string
  Method :: string
  Path :: string
  ClientIP :: string
  APIKey :: string
  StatusCode :: int
  ResponseTime :: string
  Backend :: string
  Error :: string

text \<open>
  \<^verbatim>\<open>strings.Split(s, sep)\<close> for a separator of one character: the pieces of \<open>s\<close> between
  the occurrences of \<open>sep\<close>. The result is never empty, so its element 0 exists.
\<close>

fun Split :: "string \<Rightarrow> char \<Rightarrow> string list" where
  "Split [] sep = [[]]"
| "Split (c # cs) sep =
     (if c = sep then [] # Split cs sep
      else (case Split cs sep of p # ps \<Rightarrow> (c # p) # ps | [] \<Rightarrow> [[c]]))"

text \<open>\<^verbatim>\<open>clientIP := strings.Split(r.RemoteAddr, ":")[0]\<close>\<close>

definition clientIP_of :: "Request \<Rightarrow> string" where
  "clientIP_of r = hd (Split (RemoteAddr r) CHR '':'')"

text \<open>The decimal digits of a natural number.\<close>

function show_nat :: "nat \<Rightarrow> string" where
  "show_nat n =
     (if n < 10 then [''0123456789'' ! n]
      else show_nat (n div 10) @ [''0123456789'' ! (n mod 10)])"
  by pat_completeness auto
termination
  by (relation "measure (\<lambda>n. n)") auto

declare show_nat.simps [simp del]

text \<open>
  \<^verbatim>\<open>fmt.Sprintf("%.2f", v)\<close> for \<open>v\<close> of type \<^verbatim>\<open>int64\<close>, the type of
  \<^verbatim>\<open>time.Since(startTime).Milliseconds()\<close>. The verb \<^verbatim>\<open>%f\<close> is not defined for
  integers; package \<^verbatim>\<open>fmt\<close> then prints \<^verbatim>\<open>%!f(int64=value)\<close>, the value under the
  verb \<^verbatim>\<open>%v\<close> with the flags of the directive still set: for an integer the precision 2
  is the least number of digits, filled up with leading zeros.
\<close>

definition fmt_int_prec2 :: "int \<Rightarrow> string" where
  "fmt_int_prec2 v =
     (let digits = show_nat (nat \<bar>v\<bar>);
          padded = replicate (2 - length digits) CHR ''0'' @ digits
      in if v < 0 then CHR ''-'' # padded else padded)"

definition Sprintf_2f_int64 :: "int \<Rightarrow> string" where
  "Sprintf_2f_int64 v = ''%!f(int64='' @ fmt_int_prec2 v @ '')''"

text \<open>
  \<^verbatim>\<open>type responseWriter struct { http.ResponseWriter; statusCode int; written bool }\<close> and
  the calls the proxy makes on it.
\<close>

record responseWriter =
  statusCode :: int
  written :: bool

datatype writer_call = WriteHeader int | Write

fun writer_step :: "writer_call \<Rightarrow> responseWriter \<Rightarrow> responseWriter" where
  "writer_step (WriteHeader code) w =
     (if \<not> written w then w\<lparr>statusCode := code, written := True\<rparr> else w)"
| "writer_step Write w = (if \<not> written w then w\<lparr>written := True\<rparr> else w)"

text \<open>
  \<^verbatim>\<open>type Gateway struct\<close>. The logger is the list of the entries written to the log
  file by \<^verbatim>\<open>RequestLogger.Log\<close>, oldest first.
\<close>

record Gateway =
  config :: Config
  lb :: LoadBalancer
  rateLimiter :: RateLimiter
  logger :: "LogEntry list"

definition Log :: "Gateway \<Rightarrow> LogEntry \<Rightarrow> Gateway" where
  "Log g entry = g\<lparr>logger := logger g @ [entry]\<rparr>"

text \<open>
  The calls \<^verbatim>\<open>handleRequest\<close> makes on its collaborators, recorded in the order it makes
  them: \<^verbatim>\<open>g.handleHealth\<close>, \<^verbatim>\<open>g.rateLimiter.Allow\<close>, \<^verbatim>\<open>g.lb.Next\<close>,
  \<^verbatim>\<open>backend.Proxy.ServeHTTP\<close> (with the position of the backend), \<^verbatim>\<open>g.logger.Log\<close>
  and \<^verbatim>\<open>http.Error\<close>.
\<close>

datatype Call =
    HandleHealthCall
  | AllowCall
  | NextCall
  | ServeHTTPCall nat
  | LogCall LogEntry
  | HttpErrorCall string int

text \<open>
  How \<^verbatim>\<open>backend.Proxy.ServeHTTP(wrapped, r)\<close> ends: it returns, or it panics with
  \<^verbatim>\<open>http.ErrAbortHandler\<close> (the reverse proxy does so under an \<^verbatim>\<open>http.Server\<close> when
  copying the response body fails, as when the client disconnects or the backend dies in
  the middle of the body), or it never returns.
\<close>

datatype proxy_exit = ProxyReturns | ProxyPanics | ProxyBlocks

text \<open>
  How \<^verbatim>\<open>handleRequest\<close> ends. It has no \<^verbatim>\<open>defer\<close> and no \<^verbatim>\<open>recover\<close>: a panic of the
  proxy leaves it at once, and a proxy that never returns keeps it from returning.
\<close>

datatype handler_exit = Returned | Panicked | Blocked

text \<open>
  What one request takes from outside the gateway: the start time formatted by
  \<^verbatim>\<open>startTime.UTC().Format(time.RFC3339)\<close>, the clock readings of the rate limiter, the
  calls the reverse proxy of a backend makes on the wrapped response writer together with
  how it ends, and \<^verbatim>\<open>time.Since(startTime).Milliseconds()\<close>.
\<close>

record Env =
  start_rfc3339 :: string
  allow_clock :: AllowClock
  proxy :: "nat \<Rightarrow> Request \<Rightarrow> writer_call list \<times> proxy_exit"
  since_ms :: int

text \<open>
  \<^verbatim>\<open>func (g *Gateway) handleRequest(w http.ResponseWriter, r *http.Request)\<close>: the
  gateway after the request, the calls made, and how the handler ends. The status codes are
  \<^verbatim>\<open>http.StatusUnauthorized\<close> = 401, \<^verbatim>\<open>http.StatusTooManyRequests\<close> = 429,
  \<^verbatim>\<open>http.StatusServiceUnavailable\<close> = 503 and \<^verbatim>\<open>http.StatusOK\<close> = 200.
\<close>

definition handleRequest :: "Gateway \<Rightarrow> Request \<Rightarrow> Env \<Rightarrow> Gateway \<times> Call list \<times> handler_exit" where
  "handleRequest g r env =
     (if req_Path r = ''/health'' then (g, [HandleHealthCall], Returned)
      else
        let clientIP = clientIP_of r;
            logEntry = \<lparr>Timestamp = start_rfc3339 env, Method = req_Method r, Path = req_Path r,
                        ClientIP = clientIP, APIKey = [], StatusCode = 0, ResponseTime = [],
                        Backend = [], Error = []\<rparr>;
            apiKey = X_API_Key r;
            logEntry = (if apiKey \<noteq> [] then logEntry\<lparr>APIKey := apiKey\<rparr> else logEntry)
        in
          if apiKey \<noteq> [] \<and> \<not> APIKeys_get (config g) apiKey then
            (let logEntry = logEntry\<lparr>StatusCode := 401, Error := ''invalid API key''\<rparr>
             in (Log g logEntry,
                 [LogCall logEntry, HttpErrorCall ''Unauthorized: invalid API key'' 401],
                 Returned))
          else
            (case Allow (rateLimiter g) clientIP apiKey (config g) (allow_clock env) of
               (allowed, rl') \<Rightarrow>
                 let g = g\<lparr>rateLimiter := rl'\<rparr> in
                 if \<not> allowed then
                   (let logEntry = logEntry\<lparr>StatusCode := 429, Error := ''rate limit exceeded''\<rparr>
                    in (Log g logEntry,
                        [AllowCall, LogCall logEntry, HttpErrorCall ''Rate limit exceeded'' 429],
                        Returned))
                 else
                   (case Next (lb g) of
                      (backend, lb') \<Rightarrow>
                        let g = g\<lparr>lb := lb'\<rparr> in
                        (case backend of
                           None \<Rightarrow>
                             (let logEntry = logEntry\<lparr>StatusCode := 503,
                                               Error := ''no healthy backends available''\<rparr>
                              in (Log g logEntry,
                                  [AllowCall, NextCall, LogCall logEntry,
                                   HttpErrorCall ''Service unavailable'' 503],
                                  Returned))
                         | Some idx \<Rightarrow>
                             (let logEntry = logEntry\<lparr>Backend := URL (backends (lb g) ! idx)\<rparr>
                              in case proxy env idx r of
                                   (writes, ProxyReturns) \<Rightarrow>
                                     (let wrapped = fold writer_step writes
                                                      \<lparr>statusCode = 200, written = False\<rparr>;
                                          logEntry = logEntry\<lparr>StatusCode := statusCode wrapped,
                                                       ResponseTime := Sprintf_2f_int64 (since_ms env)\<rparr>
                                      in (Log g logEntry,
                                          [AllowCall, NextCall, ServeHTTPCall idx, LogCall logEntry],
                                          Returned))
                                 | (writes, ProxyPanics) \<Rightarrow>
                                     (g, [AllowCall, NextCall, ServeHTTPCall idx], Panicked)
                                 | (writes, ProxyBlocks) \<Rightarrow>
                                     (g, [AllowCall, NextCall, ServeHTTPCall idx], Blocked))))))"

text \<open>The calls of \<^verbatim>\<open>g.logger.Log\<close> and of \<^verbatim>\<open>backend.Proxy.ServeHTTP\<close> among the calls of a request.\<close>

fun is_LogCall :: "Call \<Rightarrow> bool" where
  "is_LogCall (LogCall e) = True"
| "is_LogCall c = False"

fun is_ServeHTTPCall :: "Call \<Rightarrow> bool" where
  "is_ServeHTTPCall (ServeHTTPCall i) = True"
| "is_ServeHTTPCall c = False"

section \<open>Locks and shared state\<close>

















section \<open>Concrete inputs and invariants\<close>

text \<open>A load balancer whose cursor stands on a dead backend, and one with no live backend.\<close>

definition lb_example :: LoadBalancer where
  "lb_example = \<lparr>backends = [\<lparr>URL = ''http://a'', Alive = False\<rparr>,
                               \<lparr>URL = ''http://b'', Alive = False\<rparr>,
                               \<lparr>URL = ''http://c'', Alive = True\<rparr>], current = 1\<rparr>"

definition lb_all_dead :: LoadBalancer where
  "lb_all_dead = \<lparr>backends = [\<lparr>URL = ''http://a'', Alive = False\<rparr>,
                                \<lparr>URL = ''http://b'', Alive = False\<rparr>], current = 1\<rparr>"

text \<open>Three live backends, the cursor on the second.\<close>

definition lb_three_alive :: LoadBalancer where
  "lb_three_alive = \<lparr>backends = [\<lparr>URL = ''http://a'', Alive = True\<rparr>,
                                   \<lparr>URL = ''http://b'', Alive = True\<rparr>,
                                   \<lparr>URL = ''http://c'', Alive = True\<rparr>], current = 1\<rparr>"

text \<open>Clock readings, configurations and a call sequence for the rate limiter.\<close>

definition clock0 :: AllowClock where
  "clock0 = \<lparr>ip_new = 0, ip_refill = 0, key_new = 0, key_refill = 0\<rparr>"

definition config_two :: Config where
  "config_two = \<lparr>RateLimitPerIP = 2, RateLimitPerKey = 1000, APIKeys = [''key-admin'' \<mapsto> True]\<rparr>"

definition config_zero :: Config where
  "config_zero = \<lparr>RateLimitPerIP = 0, RateLimitPerKey = 0, APIKeys = [''key-admin'' \<mapsto> True]\<rparr>"

definition config_negative :: Config where
  "config_negative = \<lparr>RateLimitPerIP = - 1, RateLimitPerKey = 1000, APIKeys = [''key-admin'' \<mapsto> True]\<rparr>"

definition config_huge :: Config where
  "config_huge = \<lparr>RateLimitPerIP = 1152921504606846976, RateLimitPerKey = 1152921504606846976,
                   APIKeys = [''key-admin'' \<mapsto> True]\<rparr>"

definition calls_two :: "(string \<times> string \<times> AllowClock) list" where
  "calls_two = [(''10.0.0.1'', ''key-admin'', clock0), (''10.0.0.1'', ''key-admin'', clock0)]"

text \<open>
  Predicates for the invariants of the rate limiter: a property of every bucket of both
  maps, a bucket with non-negative fields whose last refill is not after \<open>T\<close>, and the
  real numbers \<open>m * 2 powi e\<close> with \<open>\<bar>m\<bar> < 2 ^ 53\<close>.
\<close>

definition buckets_all :: "(TokenBucket \<Rightarrow> bool) \<Rightarrow> RateLimiter \<Rightarrow> bool" where
  "buckets_all P rl \<longleftrightarrow>
     (\<forall>ident b. ipLimits rl ident = Some b \<or> keyLimits rl ident = Some b \<longrightarrow> P b)"

definition bucket_ok :: "int \<Rightarrow> TokenBucket \<Rightarrow> bool" where
  "bucket_ok T b \<longleftrightarrow> 0 \<le> tokens b \<and> 0 \<le> capacity b \<and> 0 \<le> refillRate b \<and> lastRefill b \<le> T"

definition dyadic53 :: "real \<Rightarrow> bool" where
  "dyadic53 x \<longleftrightarrow> (\<exists>m e. \<bar>m\<bar> < (2::int) ^ 53 \<and> x = of_int m * 2 powi e)"

text \<open>Backends, gateways, requests and environments for the health checker and the dispatcher.\<close>

definition backend_up :: Backend where
  "backend_up = \<lparr>URL = ''http://localhost:8081'', Alive = True\<rparr>"

definition backend_down :: Backend where
  "backend_down = \<lparr>URL = ''http://localhost:8081'', Alive = False\<rparr>"

definition gw_example :: Gateway where
  "gw_example = \<lparr>config = config_two, lb = lb_three_alive, rateLimiter = NewRateLimiter, logger = []\<rparr>"

definition gw_zero :: Gateway where
  "gw_zero = \<lparr>config = config_zero, lb = lb_three_alive, rateLimiter = NewRateLimiter, logger = []\<rparr>"

definition req_plain :: Request where
  "req_plain = \<lparr>req_Method = ''GET'', req_Path = ''/api/data'', RemoteAddr = ''127.0.0.1:54321'',
                 X_API_Key = []\<rparr>"

definition req_bogus :: Request where
  "req_bogus = \<lparr>req_Method = ''GET'', req_Path = ''/api/data'', RemoteAddr = ''127.0.0.1:54321'',
                 X_API_Key = ''bogus''\<rparr>"

definition req_ipv6 :: Request where
  "req_ipv6 = \<lparr>req_Method = ''GET'', req_Path = ''/api/data'', RemoteAddr = ''[2001:db8::1]:54321'',
                X_API_Key = []\<rparr>"

definition req_ipv6_other :: Request where
  "req_ipv6_other = \<lparr>req_Method = ''GET'', req_Path = ''/api/data'', RemoteAddr = ''[fe80::1]:54321'',
                      X_API_Key = []\<rparr>"

definition env_example :: Env where
  "env_example = \<lparr>start_rfc3339 = ''2026-02-10T12:23:45Z'', allow_clock = clock0,
                   proxy = (\<lambda>idx r. ([WriteHeader 200, Write], ProxyReturns)), since_ms = 12\<rparr>"

text \<open>The same environment with a proxy that sends the header and panics while copying the body.\<close>

definition env_abort :: Env where
  "env_abort = \<lparr>start_rfc3339 = ''2026-02-10T12:23:45Z'', allow_clock = clock0,
                 proxy = (\<lambda>idx r. ([WriteHeader 200, Write], ProxyPanics)), since_ms = 12\<rparr>"

section \<open>The load balancer selects the first live backend from the cursor\<close>

lemma Next_loop_Some:
  "Next_loop bs c i = Some idx \<longleftrightarrow>
     (\<exists>k. i \<le> k \<and> k < length bs \<and> idx = (c + k) mod length bs \<and> Alive (bs ! idx)
          \<and> (\<forall>j. i \<le> j \<and> j < k \<longrightarrow> \<not> Alive (bs ! ((c + j) mod length bs))))"
proof (induction bs c i rule: Next_loop.induct)
  case (1 bs start i)
  show ?case
  proof (cases "i < length bs")
    case False
    then show ?thesis by (simp add: Next_loop.simps [of bs start i])
  next
    case True
    show ?thesis
    proof (cases "Alive (bs ! ((start + i) mod length bs))")
      case A: True
      have "\<And>k. i \<le> k \<Longrightarrow> \<forall>j. i \<le> j \<and> j < k \<longrightarrow> \<not> Alive (bs ! ((start + j) mod length bs)) \<Longrightarrow> k = i"
        using A by (metis le_neq_implies_less order_refl)
      with True A show ?thesis
        by (auto simp: Next_loop.simps [of bs start i])
    next
      case D: False
      have "Next_loop bs start i = Next_loop bs start (i + 1)"
        using True D by (simp add: Next_loop.simps [of bs start i])
      also have "\<dots> = Some idx \<longleftrightarrow> (\<exists>k. i + 1 \<le> k \<and> k < length bs \<and> idx = (start + k) mod length bs \<and> Alive (bs ! idx)
          \<and> (\<forall>j. i + 1 \<le> j \<and> j < k \<longrightarrow> \<not> Alive (bs ! ((start + j) mod length bs))))"
        using 1 True D by simp
      also have "\<dots> \<longleftrightarrow> (\<exists>k. i \<le> k \<and> k < length bs \<and> idx = (start + k) mod length bs \<and> Alive (bs ! idx)
          \<and> (\<forall>j. i \<le> j \<and> j < k \<longrightarrow> \<not> Alive (bs ! ((start + j) mod length bs))))"
        (is "?L \<longleftrightarrow> ?R")
      proof
        assume ?L
        then obtain k where k: "i + 1 \<le> k" "k < length bs" "idx = (start + k) mod length bs" "Alive (bs ! idx)"
          "\<forall>j. i + 1 \<le> j \<and> j < k \<longrightarrow> \<not> Alive (bs ! ((start + j) mod length bs))" by blast
        have "\<forall>j. i \<le> j \<and> j < k \<longrightarrow> \<not> Alive (bs ! ((start + j) mod length bs))"
        proof (intro allI impI)
          fix j assume "i \<le> j \<and> j < k"
          then show "\<not> Alive (bs ! ((start + j) mod length bs))"
            using D k(5) by (cases "j = i") auto
        qed
        with k show ?R by (intro exI [of _ k]) auto
      next
        assume ?R
        then obtain k where k: "i \<le> k" "k < length bs" "idx = (start + k) mod length bs" "Alive (bs ! idx)"
          "\<forall>j. i \<le> j \<and> j < k \<longrightarrow> \<not> Alive (bs ! ((start + j) mod length bs))" by blast
        have "k \<noteq> i" using k(3,4) D by auto
        with k show ?L by (intro exI [of _ k]) auto
      qed
      finally show ?thesis .
    qed
  qed
qed

lemma Next_loop_None:
  "Next_loop bs c i = None \<longleftrightarrow>
     (\<forall>k. i \<le> k \<and> k < length bs \<longrightarrow> \<not> Alive (bs ! ((c + k) mod length bs)))"
proof (induction bs c i rule: Next_loop.induct)
  case (1 bs start i)
  show ?case
  proof (cases "i < length bs")
    case False
    then have "Next_loop bs start i = None"
      by (simp add: Next_loop.simps [of bs start i])
    moreover have "\<forall>k. i \<le> k \<and> k < length bs \<longrightarrow> \<not> Alive (bs ! ((start + k) mod length bs))"
      using False by auto
    ultimately show ?thesis by blast
  next
    case True
    show ?thesis
    proof (cases "Alive (bs ! ((start + i) mod length bs))")
      case A: True
      have "Next_loop bs start i \<noteq> None"
        using True A by (simp add: Next_loop.simps [of bs start i])
      moreover have "\<not> (\<forall>k. i \<le> k \<and> k < length bs \<longrightarrow> \<not> Alive (bs ! ((start + k) mod length bs)))"
        using True A by blast
      ultimately show ?thesis by blast
    next
      case D: False
      have "Next_loop bs start i = Next_loop bs start (i + 1)"
        using True D by (simp add: Next_loop.simps [of bs start i])
      moreover have "Next_loop bs start (i + 1) = None \<longleftrightarrow>
          (\<forall>k. i + 1 \<le> k \<and> k < length bs \<longrightarrow> \<not> Alive (bs ! ((start + k) mod length bs)))"
        using 1 True D by simp
      moreover have "(\<forall>k. i + 1 \<le> k \<and> k < length bs \<longrightarrow> \<not> Alive (bs ! ((start + k) mod length bs)))
          \<longleftrightarrow> (\<forall>k. i \<le> k \<and> k < length bs \<longrightarrow> \<not> Alive (bs ! ((start + k) mod length bs)))"
      proof (intro iffI allI impI)
        fix k assume h: "\<forall>k. i + 1 \<le> k \<and> k < length bs \<longrightarrow> \<not> Alive (bs ! ((start + k) mod length bs))"
          and k: "i \<le> k \<and> k < length bs"
        show "\<not> Alive (bs ! ((start + k) mod length bs))"
          using h k D by (cases "k = i") auto
      next
        fix k assume h: "\<forall>k. i \<le> k \<and> k < length bs \<longrightarrow> \<not> Alive (bs ! ((start + k) mod length bs))"
          and k: "i + 1 \<le> k \<and> k < length bs"
        show "\<not> Alive (bs ! ((start + k) mod length bs))"
          using h k by auto
      qed
      ultimately show ?thesis by simp
    qed
  qed
qed

lemma all_dead_scan:
  assumes "\<forall>b \<in> set bs. \<not> Alive b"
  shows "\<forall>k. i \<le> k \<and> k < length bs \<longrightarrow> \<not> Alive (bs ! ((c + k) mod length bs))"
proof (intro allI impI)
  fix k assume "i \<le> k \<and> k < length bs"
  then have "0 < length bs" by linarith
  then have "(c + k) mod length bs < length bs" by (rule mod_less_divisor)
  then have "bs ! ((c + k) mod length bs) \<in> set bs" by (rule nth_mem)
  with assms show "\<not> Alive (bs ! ((c + k) mod length bs))" by blast
qed

lemma Next_calls_all_dead:
  "\<forall>b \<in> set (backends L). \<not> Alive b \<Longrightarrow> Next_calls n L = (replicate n None, L)"
proof (induction n)
  case 0
  show ?case by simp
next
  case (Suc n)
  have "Next_loop (backends L) (current L) 0 = None"
    unfolding Next_loop_None using Suc.prems by (rule all_dead_scan)
  then have "Next L = (None, L)"
    by (simp add: Next_def)
  with Suc show ?case by simp
qed

text \<open>
  Claim C1. For a non-empty backend list, \<open>Next\<close> scans the positions
  \<open>(current + i) mod N\<close> for \<open>i = 0, \<dots>, N - 1\<close> in this order: it returns the first one whose
  backend is alive and moves the cursor to one past it modulo \<open>N\<close>; when none of them is
  alive it returns none and leaves the load balancer as it was, so that with every backend
  dead any number of further calls return none as long as no liveness flag is set.
\<close>

theorem Next_health_aware_round_robin:
  assumes "backends L \<noteq> []"
  shows "(\<forall>i < length (backends L).
            Alive (backends L ! ((current L + i) mod length (backends L))) \<and>
            (\<forall>j < i. \<not> Alive (backends L ! ((current L + j) mod length (backends L)))) \<longrightarrow>
            Next L = (Some ((current L + i) mod length (backends L)),
                       L\<lparr>current := ((current L + i) mod length (backends L) + 1)
                                        mod length (backends L)\<rparr>))
       \<and> ((\<forall>i < length (backends L).
              \<not> Alive (backends L ! ((current L + i) mod length (backends L)))) \<longrightarrow>
            Next L = (None, L))
       \<and> ((\<forall>b \<in> set (backends L). \<not> Alive b) \<longrightarrow>
            (\<forall>n. Next_calls n L = (replicate n None, L)))"
proof (intro conjI allI impI)
  fix i
  assume i: "i < length (backends L)"
    and h: "Alive (backends L ! ((current L + i) mod length (backends L))) \<and>
            (\<forall>j < i. \<not> Alive (backends L ! ((current L + j) mod length (backends L))))"
  have "Next_loop (backends L) (current L) 0 = Some ((current L + i) mod length (backends L))"
    unfolding Next_loop_Some using i h by (intro exI [of _ i]) simp
  then show "Next L = (Some ((current L + i) mod length (backends L)),
                       L\<lparr>current := ((current L + i) mod length (backends L) + 1)
                                        mod length (backends L)\<rparr>)"
    using assms by (simp add: Next_def)
next
  assume "\<forall>i < length (backends L).
              \<not> Alive (backends L ! ((current L + i) mod length (backends L)))"
  then have "Next_loop (backends L) (current L) 0 = None"
    by (simp add: Next_loop_None)
  then show "Next L = (None, L)"
    by (simp add: Next_def)
next
  fix n
  assume "\<forall>b \<in> set (backends L). \<not> Alive b"
  then show "Next_calls n L = (replicate n None, L)"
    by (rule Next_calls_all_dead)
qed

theorem Next_health_aware_round_robin_witness:
  "backends lb_example \<noteq> [] \<and> backends lb_all_dead \<noteq> []
   \<and> Next lb_example = (Some 2, lb_example\<lparr>current := 0\<rparr>)
   \<and> Next lb_all_dead = (None, lb_all_dead)
   \<and> Next_calls 3 lb_all_dead = ([None, None, None], lb_all_dead)"
proof -
  have a: "backends lb_example \<noteq> []" by (simp add: lb_example_def)
  have d: "backends lb_all_dead \<noteq> []" by (simp add: lb_all_dead_def)
  note ta = Next_health_aware_round_robin [OF a]
  note td = Next_health_aware_round_robin [OF d]
  have "1 < length (backends lb_example)" by (simp add: lb_example_def)
  moreover have "Alive (backends lb_example ! ((current lb_example + 1) mod length (backends lb_example))) \<and>
      (\<forall>j < 1. \<not> Alive (backends lb_example ! ((current lb_example + j) mod length (backends lb_example))))"
    by (simp add: lb_example_def)
  ultimately have 1: "Next lb_example = (Some 2, lb_example\<lparr>current := 0\<rparr>)"
    using ta [THEN conjunct1, rule_format, of 1] by (simp add: lb_example_def)
  have dead: "\<forall>b \<in> set (backends lb_all_dead). \<not> Alive b"
    by (simp add: lb_all_dead_def)
  then have "\<forall>i < length (backends lb_all_dead).
      \<not> Alive (backends lb_all_dead ! ((current lb_all_dead + i) mod length (backends lb_all_dead)))"
    using all_dead_scan [of "backends lb_all_dead" 0 "current lb_all_dead"] by simp
  then have 2: "Next lb_all_dead = (None, lb_all_dead)"
    using td [THEN conjunct2, THEN conjunct1] by blast
  have 3: "Next_calls 3 lb_all_dead = ([None, None, None], lb_all_dead)"
    using td [THEN conjunct2, THEN conjunct2] dead
    by (simp add: numeral_3_eq_3)
  from a d 1 2 3 show ?thesis by blast
qed

section \<open>Round robin over live backends\<close>

lemma Next_all_alive:
  assumes "backends L \<noteq> []" and "\<forall>b \<in> set (backends L). Alive b"
  shows "Next L = (Some (current L mod length (backends L)),
                   L\<lparr>current := (current L + 1) mod length (backends L)\<rparr>)"
proof -
  have pos: "0 < length (backends L)" using assms(1) by simp
  then have "current L mod length (backends L) < length (backends L)"
    by (rule mod_less_divisor)
  then have "backends L ! (current L mod length (backends L)) \<in> set (backends L)"
    by (rule nth_mem)
  with assms(2) have "Alive (backends L ! (current L mod length (backends L)))" by blast
  with pos have "Next_loop (backends L) (current L) 0 = Some (current L mod length (backends L))"
    by (simp add: Next_loop.simps [of "backends L" "current L" 0])
  with assms(1) show ?thesis
    by (simp add: Next_def mod_Suc_eq)
qed

lemma Next_calls_all_alive:
  assumes "backends L \<noteq> []" and "\<forall>b \<in> set (backends L). Alive b"
  shows "fst (Next_calls M L) = map (\<lambda>j. Some ((current L + j) mod length (backends L))) [0..<M]"
  using assms
proof (induction M arbitrary: L)
  case 0
  show ?case by simp
next
  case (Suc M)
  let ?L' = "L\<lparr>current := (current L + 1) mod length (backends L)\<rparr>"
  have n: "Next L = (Some (current L mod length (backends L)), ?L')"
    using Suc.prems by (rule Next_all_alive)
  have "fst (Next_calls M ?L') = map (\<lambda>j. Some ((current ?L' + j) mod length (backends ?L'))) [0..<M]"
    using Suc.prems by (intro Suc.IH) simp_all
  then have ih: "fst (Next_calls M ?L') = map (\<lambda>j. Some ((current L + Suc j) mod length (backends L))) [0..<M]"
    by (simp add: mod_add_left_eq)
  have "fst (Next_calls (Suc M) L) = Some (current L mod length (backends L)) # fst (Next_calls M ?L')"
    using n by (simp split: prod.splits)
  also have "\<dots> = map (\<lambda>j. Some ((current L + j) mod length (backends L))) (0 # map Suc [0..<M])"
    using ih by (simp add: comp_def)
  also have "0 # map Suc [0..<M] = [0..<Suc M]"
    by (simp add: map_Suc_upt upt_conv_Cons del: upt_Suc)
  finally show ?case .
qed

lemma count_mod_upt:
  assumes "0 < K" and "d < K"
  shows "length (filter (\<lambda>j. j mod K = d) [0..<M]) = M div K + (if d < M mod K then 1 else 0)"
proof (induction M)
  case 0
  show ?case by simp
next
  case (Suc M)
  show ?case
  proof (cases "Suc (M mod K) = K")
    case True
    then have "Suc M mod K = 0" "Suc M div K = Suc (M div K)"
      by (simp_all add: mod_Suc div_Suc)
    moreover have "d < M mod K \<or> d = M mod K" using True assms(2) by linarith
    ultimately show ?thesis using Suc by auto
  next
    case False
    then have "Suc M mod K = Suc (M mod K)" "Suc M div K = M div K"
      by (simp_all add: mod_Suc div_Suc)
    then show ?thesis using Suc by auto
  qed
qed

lemma mod_twice_range:
  assumes "(x::nat) < 2 * K"
  shows "x mod K = (if x < K then x else x - K)"
proof (cases "x < K")
  case True
  then show ?thesis by simp
next
  case False
  then have "x mod K = (x - K) mod K" by (simp add: le_mod_geq)
  moreover have "x - K < K" using assms by linarith
  ultimately show ?thesis using False by simp
qed

lemma shift_mod:
  fixes K i c j :: nat
  assumes "0 < K" and "i < K"
  shows "((c + j) mod K = i) \<longleftrightarrow> (j mod K = (i + K - c mod K) mod K)"
proof -
  define c' where "c' = c mod K"
  define a where "a = j mod K"
  have c': "c' < K" and a: "a < K" using assms(1) by (simp_all add: c'_def a_def)
  have "(c + j) mod K = (c' + a) mod K"
    by (simp add: c'_def a_def mod_add_eq)
  also have "\<dots> = (if c' + a < K then c' + a else c' + a - K)"
    using c' a by (intro mod_twice_range) linarith
  finally have l: "(c + j) mod K = (if c' + a < K then c' + a else c' + a - K)" .
  have r: "(i + K - c') mod K = (if i + K - c' < K then i + K - c' else i + K - c' - K)"
    using c' assms(2) by (intro mod_twice_range) linarith
  have "((if c' + a < K then c' + a else c' + a - K) = i)
      \<longleftrightarrow> (a = (if i + K - c' < K then i + K - c' else i + K - c' - K))"
    using c' a assms(2) by (cases "c' + a < K"; cases "i + K - c' < K"; simp; linarith)
  then show ?thesis
    unfolding l r c'_def [symmetric] a_def [symmetric] .
qed

lemma count_cursor_upt:
  assumes "0 < K" and "i < K"
  shows "length (filter (\<lambda>j. (c + j) mod K = i) [s..<s + n])
         = (s + n) div K + (if (i + K - c mod K) mod K < (s + n) mod K then 1 else 0)
           - (s div K + (if (i + K - c mod K) mod K < s mod K then 1 else 0))"
proof -
  let ?d = "(i + K - c mod K) mod K"
  have d: "?d < K" using assms(1) by simp
  have P: "(\<lambda>j. (c + j) mod K = i) = (\<lambda>j. j mod K = ?d)"
    using shift_mod [OF assms] by (intro ext) simp
  have "[0..<s + n] = [0..<s] @ [s..<s + n]"
    by (rule upt_add_eq_append) simp
  then have "length (filter (\<lambda>j. j mod K = ?d) [0..<s + n])
      = length (filter (\<lambda>j. j mod K = ?d) [0..<s]) + length (filter (\<lambda>j. j mod K = ?d) [s..<s + n])"
    by simp
  then show ?thesis
    unfolding P count_mod_upt [OF assms(1) d] by linarith
qed

lemma count_list_map_Some:
  "count_list (map (\<lambda>j. Some (f j)) xs) (Some i) = length (filter (\<lambda>j. f j = i) xs)"
  by (induction xs) simp_all

text \<open>
  Claim C7. With \<open>K\<close> backends, all alive, the \<open>j\<close>-th of \<open>M\<close> consecutive calls of \<open>Next\<close>
  returns the backend at position \<open>(current + j) mod K\<close>: the selections run through the
  backends in registration order, cyclically, and are determined by the starting cursor.
  Every backend is selected \<open>M div K\<close> or \<open>M div K + 1\<close> times, and exactly once in any
  \<open>K\<close> consecutive calls.
\<close>

theorem round_robin_all_alive:
  assumes "backends L \<noteq> []" and "\<forall>b \<in> set (backends L). Alive b"
  shows "fst (Next_calls M L) = map (\<lambda>j. Some ((current L + j) mod length (backends L))) [0..<M]
       \<and> (\<forall>i < length (backends L).
            M div length (backends L) \<le> count_list (fst (Next_calls M L)) (Some i)
          \<and> count_list (fst (Next_calls M L)) (Some i) \<le> M div length (backends L) + 1)
       \<and> (\<forall>s i. s + length (backends L) \<le> M \<and> i < length (backends L) \<longrightarrow>
            count_list (take (length (backends L)) (drop s (fst (Next_calls M L)))) (Some i) = 1)"
proof (intro conjI allI impI)
  let ?K = "length (backends L)"
  let ?f = "\<lambda>j. (current L + j) mod ?K"
  have K: "0 < ?K" using assms(1) by simp
  show seq: "fst (Next_calls M L) = map (\<lambda>j. Some (?f j)) [0..<M]"
    using assms by (rule Next_calls_all_alive)
  {
    fix i assume i: "i < ?K"
    have "count_list (fst (Next_calls M L)) (Some i) = length (filter (\<lambda>j. ?f j = i) [0..<0 + M])"
      unfolding seq by (simp add: count_list_map_Some)
    also have "\<dots> = M div ?K + (if (i + ?K - current L mod ?K) mod ?K < M mod ?K then 1 else 0)"
      unfolding count_cursor_upt [OF K i] by simp
    finally have c: "count_list (fst (Next_calls M L)) (Some i)
        = M div ?K + (if (i + ?K - current L mod ?K) mod ?K < M mod ?K then 1 else 0)" .
    show "M div ?K \<le> count_list (fst (Next_calls M L)) (Some i)"
      unfolding c by simp
    show "count_list (fst (Next_calls M L)) (Some i) \<le> M div ?K + 1"
      unfolding c by simp
  }
  {
    fix s i assume h: "s + ?K \<le> M \<and> i < ?K"
    have "take ?K (drop s (fst (Next_calls M L))) = map (\<lambda>j. Some (?f j)) (take ?K (drop s [0..<M]))"
      unfolding seq by (simp add: take_map drop_map)
    also have "take ?K (drop s [0..<M]) = [s..<s + ?K]"
      using h by (simp add: drop_upt take_upt)
    finally have "count_list (take ?K (drop s (fst (Next_calls M L)))) (Some i)
        = length (filter (\<lambda>j. ?f j = i) [s..<s + ?K])"
      by (simp add: count_list_map_Some)
    also have "\<dots> = 1"
      unfolding count_cursor_upt [OF K conjunct2 [OF h]] using K by simp
    finally show "count_list (take ?K (drop s (fst (Next_calls M L)))) (Some i) = 1" .
  }
qed

theorem round_robin_all_alive_witness:
  "backends lb_three_alive \<noteq> [] \<and> map Alive (backends lb_three_alive) = [True, True, True]
   \<and> fst (Next_calls 7 lb_three_alive) = [Some 1, Some 2, Some 0, Some 1, Some 2, Some 0, Some 1]
   \<and> 2 \<le> count_list (fst (Next_calls 7 lb_three_alive)) (Some 0)
   \<and> count_list (fst (Next_calls 7 lb_three_alive)) (Some 0) \<le> 3
   \<and> count_list (take 3 (drop 2 (fst (Next_calls 7 lb_three_alive)))) (Some 0) = 1"
proof -
  have a: "backends lb_three_alive \<noteq> []" by (simp add: lb_three_alive_def)
  have b: "\<forall>b \<in> set (backends lb_three_alive). Alive b" by (simp add: lb_three_alive_def)
  note t = round_robin_all_alive [OF a b, of 7]
  have len: "length (backends lb_three_alive) = 3" by (simp add: lb_three_alive_def)
  have 1: "fst (Next_calls 7 lb_three_alive) = [Some 1, Some 2, Some 0, Some 1, Some 2, Some 0, Some 1]"
    using t [THEN conjunct1] by (simp add: len) (simp add: lb_three_alive_def upt_rec)
  have 2: "2 \<le> count_list (fst (Next_calls 7 lb_three_alive)) (Some 0)
         \<and> count_list (fst (Next_calls 7 lb_three_alive)) (Some 0) \<le> 3"
    using t [THEN conjunct2, THEN conjunct1, rule_format, of 0] by (simp add: len)
  have 3: "count_list (take 3 (drop 2 (fst (Next_calls 7 lb_three_alive)))) (Some 0) = 1"
    using t [THEN conjunct2, THEN conjunct2, rule_format, of 2 0] by (simp add: len)
  have b': "map Alive (backends lb_three_alive) = [True, True, True]"
    by (simp add: lb_three_alive_def)
  from a b' 1 2 3 show ?thesis by blast
qed

section \<open>Rounding to float64\<close>

lemma binade_bounds:
  assumes "x \<noteq> 0"
  shows "2 powi (binade x) \<le> \<bar>x\<bar>" and "\<bar>x\<bar> < 2 powi (binade x + 1)"
proof -
  have "2 powi (binade x) \<le> \<bar>x\<bar> \<and> \<bar>x\<bar> < 2 powi (binade x + 1)"
  proof (cases "1 \<le> \<bar>x\<bar>")
    case True
    define n where "n = \<lfloor>\<bar>x\<bar>\<rfloor>"
    have n: "0 < n" using True by (simp add: n_def)
    have b1: "1 \<le> bitlen n" using n by (auto simp: bitlen_alt_def)
    have bn: "binade x = bitlen n - 1" using True by (simp add: binade_def n_def)
    from bitlen_bounds [OF n] have lo: "(2::int) ^ nat (bitlen n - 1) \<le> n" and hi: "n < 2 ^ nat (bitlen n)"
      by simp_all
    have "real_of_int ((2::int) ^ nat (bitlen n - 1)) \<le> real_of_int n" using lo by linarith
    also have "real_of_int n \<le> \<bar>x\<bar>" by (simp add: n_def)
    finally have 1: "2 powi (binade x) \<le> \<bar>x\<bar>"
      using b1 by (simp add: bn power_int_def)
    have "n + 1 \<le> 2 ^ nat (bitlen n)" using hi by linarith
    then have "real_of_int (n + 1) \<le> real_of_int (2 ^ nat (bitlen n))" by linarith
    moreover have "\<bar>x\<bar> < real_of_int (n + 1)" by (simp add: n_def)
    ultimately have "\<bar>x\<bar> < real_of_int (2 ^ nat (bitlen n))" by linarith
    then have 2: "\<bar>x\<bar> < 2 powi (binade x + 1)"
      using b1 by (simp add: bn power_int_def)
    from 1 2 show ?thesis ..
  next
    case False
    define y where "y = 1 / \<bar>x\<bar>"
    have xpos: "0 < \<bar>x\<bar>" using assms by simp
    have y1: "1 < y" using False xpos by (simp add: y_def)
    define n where "n = \<lceil>y\<rceil> - 1"
    have n: "0 < n" using y1 by (simp add: n_def)
    have ny: "real_of_int n < y" "y \<le> real_of_int n + 1"
      by (simp_all add: n_def; linarith)+
    have b1: "1 \<le> bitlen n" using n by (auto simp: bitlen_alt_def)
    have bn: "binade x = - bitlen n" using False by (simp add: binade_def n_def y_def)
    from bitlen_bounds [OF n] have lo: "(2::int) ^ nat (bitlen n - 1) \<le> n" and hi: "n < 2 ^ nat (bitlen n)"
      by simp_all
    have "n + 1 \<le> 2 ^ nat (bitlen n)" using hi by linarith
    then have "real_of_int n + 1 \<le> (2::real) ^ nat (bitlen n)"
      by (metis of_int_1 of_int_add of_int_le_iff of_int_numeral of_int_power)
    with ny(2) have yhi: "y \<le> 2 ^ nat (bitlen n)" by linarith
    have "(2::real) ^ nat (bitlen n - 1) \<le> real_of_int n" using lo by simp
    with ny(1) have ylo: "2 ^ nat (bitlen n - 1) < y" by linarith
    have x_eq: "\<bar>x\<bar> = 1 / y" using xpos by (simp add: y_def)
    have "1 / 2 ^ nat (bitlen n) \<le> 1 / y"
      using yhi y1 by (intro divide_left_mono) auto
    then have 1: "2 powi (binade x) \<le> \<bar>x\<bar>"
      using b1 by (simp add: bn x_eq power_int_def field_simps)
    have "1 / y < 1 / 2 ^ nat (bitlen n - 1)"
      using ylo y1 by (intro divide_strict_left_mono) (auto simp: zero_less_mult_iff)
    moreover have "(2::real) powi (binade x + 1) = 1 / 2 ^ nat (bitlen n - 1)"
    proof (cases "bitlen n = 1")
      case True
      then show ?thesis by (simp add: bn)
    next
      case False
      with b1 have "binade x + 1 < 0" by (simp add: bn)
      moreover have "nat (- (binade x + 1)) = nat (bitlen n - 1)" by (simp add: bn)
      ultimately show ?thesis by (simp add: power_int_def field_simps)
    qed
    ultimately have 2: "\<bar>x\<bar> < 2 powi (binade x + 1)" by (simp add: x_eq)
    from 1 2 show ?thesis ..
  qed
  then show "2 powi (binade x) \<le> \<bar>x\<bar>" and "\<bar>x\<bar> < 2 powi (binade x + 1)" by simp_all
qed

lemma binade_unique:
  assumes "2 powi k \<le> \<bar>x\<bar>" and "\<bar>x\<bar> < 2 powi (k + 1)"
  shows "binade x = k"
proof -
  have "(0::real) < 2 powi k" by simp
  with assms(1) have "0 < \<bar>x\<bar>" by linarith
  then have x: "x \<noteq> 0" by simp
  note b = binade_bounds [OF x]
  have "\<not> binade x < k"
  proof
    assume "binade x < k"
    then have "(2::real) powi (binade x + 1) \<le> 2 powi k"
      by (intro power_int_increasing) auto
    with b(2) assms(1) show False by linarith
  qed
  moreover have "\<not> k < binade x"
  proof
    assume "k < binade x"
    then have "(2::real) powi (k + 1) \<le> 2 powi (binade x)"
      by (intro power_int_increasing) auto
    with b(1) assms(2) show False by linarith
  qed
  ultimately show ?thesis by linarith
qed

lemma round_half_even_of_int [simp]: "round_half_even (of_int n) = n"
  by (simp add: round_half_even_def)

lemma round_half_even_le: "z \<le> of_int N \<Longrightarrow> round_half_even z \<le> N"
proof -
  assume a: "z \<le> of_int N"
  have "of_int \<lfloor>z\<rfloor> \<le> z" by simp
  with a have "real_of_int \<lfloor>z\<rfloor> \<le> of_int N" by linarith
  then have f: "\<lfloor>z\<rfloor> \<le> N" by simp
  show ?thesis
  proof (cases "\<lfloor>z\<rfloor> = N")
    case True
    then have "z = of_int N" using a by linarith
    then show ?thesis by simp
  next
    case False
    with f have "\<lfloor>z\<rfloor> + 1 \<le> N" by linarith
    then show ?thesis using f by (auto simp: round_half_even_def Let_def)
  qed
qed

lemma round_half_even_ge: "of_int N \<le> z \<Longrightarrow> N \<le> round_half_even z"
proof -
  assume a: "of_int N \<le> z"
  then have "N \<le> \<lfloor>z\<rfloor>" by (simp add: le_floor_iff)
  then show ?thesis by (auto simp: round_half_even_def Let_def)
qed

lemma round_half_even_nearest: "\<bar>z - of_int N\<bar> < 1 / 2 \<Longrightarrow> round_half_even z = N"
proof -
  assume a: "\<bar>z - of_int N\<bar> < 1 / 2"
  show ?thesis
  proof (cases "of_int N \<le> z")
    case True
    with a have "\<lfloor>z\<rfloor> = N" by (intro floor_unique) linarith+
    with a True show ?thesis by (simp add: round_half_even_def Let_def)
  next
    case False
    with a have f: "\<lfloor>z\<rfloor> = N - 1" by (intro floor_unique) (simp, linarith)+
    with a False have "1 / 2 < z - of_int \<lfloor>z\<rfloor>" by simp
    with f show ?thesis by (simp add: round_half_even_def Let_def)
  qed
qed

lemma round64_0 [simp]: "round64 0 = 0"
  by (simp add: round64_def)

lemma round64_nonneg: "0 \<le> x \<Longrightarrow> 0 \<le> round64 x"
proof -
  assume a: "0 \<le> x"
  show ?thesis
  proof (cases "x = 0")
    case True
    then show ?thesis by simp
  next
    case False
    have "0 \<le> x / 2 powi (binade x - 52)" using a by simp
    then have "0 \<le> round_half_even (x / 2 powi (binade x - 52))"
      using round_half_even_ge [of 0] by simp
    then show ?thesis using False by (simp add: round64_def)
  qed
qed

lemma pow2_less_cancel: "(2::real) powi a < 2 powi b \<Longrightarrow> a < b"
proof (rule ccontr)
  assume l: "(2::real) powi a < 2 powi b" and "\<not> a < b"
  then have "b \<le> a" by simp
  then have "(2::real) powi b \<le> 2 powi a" by (intro power_int_increasing) auto
  with l show False by linarith
qed

lemma dyadic53_round64_id:
  assumes "dyadic53 x"
  shows "round64 x = x"
proof (cases "x = 0")
  case True
  then show ?thesis by simp
next
  case False
  from assms obtain m e where m: "\<bar>m\<bar> < (2::int) ^ 53" and x: "x = of_int m * 2 powi e"
    unfolding dyadic53_def by blast
  let ?E = "binade x - 52"
  have "\<bar>x\<bar> = \<bar>real_of_int m\<bar> * 2 powi e" by (simp add: x abs_mult)
  also have "\<bar>real_of_int m\<bar> < 2 ^ 53"
    using m by (metis of_int_abs of_int_less_iff of_int_numeral of_int_power)
  then have "\<bar>real_of_int m\<bar> * 2 powi e < 2 ^ 53 * 2 powi e"
    by (intro mult_strict_right_mono) auto
  also have "(2::real) ^ 53 * 2 powi e = 2 powi (53 + e)"
    by (simp add: power_int_add)
  finally have "\<bar>x\<bar> < 2 powi (53 + e)" .
  with binade_bounds(1) [OF False] have "(2::real) powi (binade x) < 2 powi (53 + e)" by linarith
  then have "binade x < 53 + e" by (rule pow2_less_cancel)
  then have Ee: "0 \<le> e - ?E" by linarith
  have "x / 2 powi ?E = of_int m * 2 powi (e - ?E)"
    by (simp add: x power_int_diff)
  also have "(2::real) powi (e - ?E) = of_int (2 ^ nat (e - ?E))"
    using Ee by (simp add: power_int_def)
  finally have q: "x / 2 powi ?E = of_int (m * 2 ^ nat (e - ?E))" by simp
  have "round_half_even (x / 2 powi ?E) = m * 2 ^ nat (e - ?E)"
    unfolding q by (rule round_half_even_of_int)
  then have "round64 x = of_int (m * 2 ^ nat (e - ?E)) * 2 powi ?E"
    using False by (simp only: round64_def if_False)
  also have "\<dots> = x / 2 powi ?E * 2 powi ?E" unfolding q ..
  also have "\<dots> = x" by simp
  finally show ?thesis .
qed

lemma round64_dyadic53: "dyadic53 (round64 x)"
proof (cases "x = 0")
  case True
  have "dyadic53 0" unfolding dyadic53_def by (intro exI [of _ 0]) simp
  with True show ?thesis by simp
next
  case False
  let ?E = "binade x - 52"
  let ?z = "x / 2 powi ?E"
  let ?m = "round_half_even ?z"
  have r: "round64 x = of_int ?m * 2 powi ?E" using False by (simp add: round64_def)
  have "\<bar>?z\<bar> = \<bar>x\<bar> / 2 powi ?E" by simp
  also have "\<dots> < 2 powi (binade x + 1) / 2 powi ?E"
    using binade_bounds(2) [OF False] by (intro divide_strict_right_mono) auto
  also have "\<dots> = 2 powi 53" by (simp flip: power_int_diff)
  finally have zb: "\<bar>?z\<bar> < 2 ^ 53" by simp
  have zb': "?z < 2 ^ 53" "- (2 ^ 53) < ?z"
    using zb unfolding abs_less_iff by linarith+
  have "?z \<le> of_int (2 ^ 53)" using zb'(1) by simp
  then have up: "?m \<le> 2 ^ 53" by (rule round_half_even_le)
  have "of_int (- (2 ^ 53)) \<le> ?z" using zb'(2) by simp
  then have lo: "- (2 ^ 53) \<le> ?m" by (rule round_half_even_ge)
  have p: "(2::real) powi (?E + 1) = 2 powi ?E * 2"
    using power_int_add [of "2::real" ?E 1] by simp
  consider "\<bar>?m\<bar> < 2 ^ 53" | "?m = 2 ^ 53" | "?m = - (2 ^ 53)"
    using up lo by linarith
  then show ?thesis
  proof cases
    case 1
    then show ?thesis unfolding dyadic53_def r by blast
  next
    case 2
    have "round64 x = of_int (2 ^ 52) * 2 powi (?E + 1)"
      unfolding r 2 p by simp
    moreover have "\<bar>(2::int) ^ 52\<bar> < 2 ^ 53" by simp
    ultimately show ?thesis unfolding dyadic53_def by blast
  next
    case 3
    have "round64 x = of_int (- (2 ^ 52)) * 2 powi (?E + 1)"
      unfolding r 3 p by simp
    moreover have "\<bar>- ((2::int) ^ 52)\<bar> < 2 ^ 53" by simp
    ultimately show ?thesis unfolding dyadic53_def by blast
  qed
qed

lemma is_float64_iff: "is_float64 x \<longleftrightarrow> dyadic53 x"
  unfolding is_float64_def
  using dyadic53_round64_id [of x] round64_dyadic53 [of x] by auto

lemma is_float64_round64 [simp]: "is_float64 (round64 x)"
  by (simp add: is_float64_iff round64_dyadic53)

lemma round64_le_float:
  assumes "0 < x" and "x \<le> y" and "is_float64 y"
  shows "round64 x \<le> y"
proof -
  from assms(3) obtain m e where m: "\<bar>m\<bar> < (2::int) ^ 53" and y: "y = of_int m * 2 powi e"
    unfolding is_float64_iff dyadic53_def by blast
  have x0: "x \<noteq> 0" using assms(1) by simp
  let ?E = "binade x - 52"
  have "\<bar>y\<bar> = \<bar>real_of_int m\<bar> * 2 powi e" by (simp add: y abs_mult)
  also have "\<bar>real_of_int m\<bar> < 2 ^ 53"
    using m by (metis of_int_abs of_int_less_iff of_int_numeral of_int_power)
  then have "\<bar>real_of_int m\<bar> * 2 powi e < 2 ^ 53 * 2 powi e"
    by (intro mult_strict_right_mono) auto
  also have "(2::real) ^ 53 * 2 powi e = 2 powi (53 + e)"
    by (simp add: power_int_add)
  finally have "\<bar>y\<bar> < 2 powi (53 + e)" .
  moreover have "2 powi (binade x) \<le> \<bar>y\<bar>"
    using binade_bounds(1) [OF x0] assms(1,2) by linarith
  ultimately have "(2::real) powi (binade x) < 2 powi (53 + e)" by linarith
  then have "binade x < 53 + e" by (rule pow2_less_cancel)
  then have Ee: "0 \<le> e - ?E" by linarith
  have "y / 2 powi ?E = of_int m * 2 powi (e - ?E)"
    by (simp add: y power_int_diff)
  also have "(2::real) powi (e - ?E) = of_int (2 ^ nat (e - ?E))"
    using Ee by (simp add: power_int_def)
  finally have q: "y / 2 powi ?E = of_int (m * 2 ^ nat (e - ?E))" by simp
  have "x / 2 powi ?E \<le> y / 2 powi ?E"
    using assms(2) by (intro divide_right_mono) auto
  then have "round_half_even (x / 2 powi ?E) \<le> m * 2 ^ nat (e - ?E)"
    unfolding q by (rule round_half_even_le)
  then have "real_of_int (round_half_even (x / 2 powi ?E)) \<le> real_of_int (m * 2 ^ nat (e - ?E))"
    by linarith
  then have "real_of_int (round_half_even (x / 2 powi ?E)) * 2 powi ?E \<le> y / 2 powi ?E * 2 powi ?E"
    unfolding q by (intro mult_right_mono) auto
  then show ?thesis using x0 by (simp add: round64_def)
qed

lemma is_float64_of_int:
  assumes "\<bar>n\<bar> \<le> (2::int) ^ 53"
  shows "is_float64 (of_int n)"
proof (cases "\<bar>n\<bar> < 2 ^ 53")
  case True
  have "real_of_int n = of_int n * 2 powi 0" by simp
  with True show ?thesis unfolding is_float64_iff dyadic53_def by blast
next
  case False
  with assms consider "n = 2 ^ 53" | "n = - (2 ^ 53)" by linarith
  then show ?thesis
  proof cases
    case 1
    have "real_of_int n = of_int (2 ^ 52) * 2 powi 1" by (simp add: 1)
    moreover have "\<bar>(2::int) ^ 52\<bar> < 2 ^ 53" by simp
    ultimately show ?thesis unfolding is_float64_iff dyadic53_def by blast
  next
    case 2
    have "real_of_int n = of_int (- (2 ^ 52)) * 2 powi 1" by (simp add: 2)
    moreover have "\<bar>- ((2::int) ^ 52)\<bar> < 2 ^ 53" by simp
    ultimately show ?thesis unfolding is_float64_iff dyadic53_def by blast
  qed
qed


lemma fsub_one_exact:
  assumes "is_float64 t" and "1 \<le> t" and "t \<le> 2 ^ 53"
  shows "fsub t 1 = t - 1"
proof -
  from assms(1) obtain m e where m: "\<bar>m\<bar> < (2::int) ^ 53" and t: "t = of_int m * 2 powi e"
    unfolding is_float64_iff dyadic53_def by blast
  have mpos: "0 < m"
  proof (rule ccontr)
    assume "\<not> 0 < m"
    then have "real_of_int m \<le> 0" by simp
    then have "real_of_int m * 2 powi e \<le> 0" by (intro mult_nonpos_nonneg) auto
    with assms(2) t show False by linarith
  qed
  have "dyadic53 (t - 1)"
  proof (cases "0 \<le> e")
    case True
    define T where "T = m * 2 ^ nat e"
    have tT: "t = of_int T" using True by (simp add: t T_def power_int_def)
    have "1 \<le> T" "T \<le> 2 ^ 53" using assms(2,3) unfolding tT by simp_all
    then have "\<bar>T - 1\<bar> < 2 ^ 53" by simp
    moreover have "t - 1 = of_int (T - 1) * 2 powi 0" by (simp add: tT)
    ultimately show ?thesis unfolding dyadic53_def by blast
  next
    case False
    define k where "k = nat (- e)"
    have pe: "(2::real) powi e = 1 / 2 ^ k" using False by (simp add: power_int_def k_def field_simps)
    have "t - 1 = (real_of_int m - 2 ^ k) * 2 powi e" by (simp add: t pe field_simps)
    then have d: "t - 1 = of_int (m - 2 ^ k) * 2 powi e" by simp
    have "1 \<le> real_of_int m / 2 ^ k" using assms(2) by (simp add: t pe)
    then have "(2::real) ^ k \<le> real_of_int m" by (simp add: field_simps)
    then have "(2::int) ^ k \<le> m" by simp
    moreover have "0 \<le> (2::int) ^ k" by simp
    ultimately have "\<bar>m - 2 ^ k\<bar> < 2 ^ 53" using m mpos by linarith
    with d show ?thesis unfolding dyadic53_def by blast
  qed
  then show ?thesis by (simp add: fsub_def dyadic53_round64_id)
qed

lemma round64_of_int_small: "\<bar>n\<bar> \<le> (2::int) ^ 53 \<Longrightarrow> round64 (of_int n) = of_int n"
  using is_float64_of_int [of n] by (simp add: is_float64_def)

lemma round64_numeral: "numeral k \<le> (9007199254740992::int) \<Longrightarrow> round64 (numeral k) = numeral k"
  using round64_of_int_small [of "numeral k"] by simp

lemma round64_neg_numeral:
  "numeral k \<le> (9007199254740992::int) \<Longrightarrow> round64 (- numeral k) = - numeral k"
  using round64_of_int_small [of "- numeral k"] by simp

lemma round64_1 [simp]: "round64 1 = 1"
  using round64_of_int_small [of 1] by simp

lemma round64_neg_1 [simp]: "round64 (- 1) = - 1"
  using round64_of_int_small [of "- 1"] by simp

lemma round64_two_powi_60: "round64 1152921504606846976 = 1152921504606846976"
proof -
  have "(1152921504606846976::real) = of_int 1 * 2 powi 60" by (simp add: power_int_def)
  moreover have "\<bar>1::int\<bar> < 2 ^ 53" by simp
  ultimately have "dyadic53 1152921504606846976" unfolding dyadic53_def by blast
  then show ?thesis by (rule dyadic53_round64_id)
qed

lemma round64_two_powi_60_minus_1: "round64 1152921504606846975 = 1152921504606846976"
proof -
  have b: "binade 1152921504606846975 = 59"
    by (rule binade_unique) (simp_all add: power_int_def)
  have "\<bar>(1152921504606846975::real) / 2 powi 7 - of_int 9007199254740992\<bar> < 1 / 2"
    by (simp add: power_int_def)
  then have "round_half_even (1152921504606846975 / 2 powi 7) = 9007199254740992"
    by (rule round_half_even_nearest)
  then show ?thesis
    by (simp add: round64_def b power_int_def)
qed

lemma Seconds_0 [simp]: "Seconds 0 = 0"
  by (simp add: Seconds_def go_quot_def go_rem_def float64_of_int_def fadd_def fdiv_def)

lemma Sub_self [simp]: "Sub t t = 0"
  by (simp add: Sub_def)

lemma fmul_0 [simp]: "fmul 0 b = 0"
  by (simp add: fmul_def)

section \<open>The rate limiter refills, then checks\<close>

lemma min_float_min: "min_float a b = min a b"
  by (simp add: min_float_def min_def)

lemma refill_eq:
  "refill t tb = tb\<lparr>tokens := min (capacity tb)
                                 (fadd (tokens tb) (fmul (Seconds (Sub t (lastRefill tb))) (refillRate tb))),
                     lastRefill := t\<rparr>"
  by (simp add: refill_def Let_def min_float_min)


lemma is_float64_min: "is_float64 a \<Longrightarrow> is_float64 b \<Longrightarrow> is_float64 (min a b)"
  by (simp add: min_def)


lemma allowIP_spec:
  "allowIP rl ip limit t_new t =
     (case spec_tryConsume t (spec_bucket_for (ipLimits rl) ip limit t_new) of
        (ok, b) \<Rightarrow> (ok, rl\<lparr>ipLimits := (ipLimits rl)(ip \<mapsto> b)\<rparr>))"
  by (simp add: allowIP_def spec_tryConsume_def spec_bucket_for_def refill_eq Let_def)

lemma allowKey_spec:
  "allowKey rl key limit t_new t =
     (case spec_tryConsume t (spec_bucket_for (keyLimits rl) key limit t_new) of
        (ok, b) \<Rightarrow> (ok, rl\<lparr>keyLimits := (keyLimits rl)(key \<mapsto> b)\<rparr>))"
  by (simp add: allowKey_def spec_tryConsume_def spec_bucket_for_def refill_eq Let_def)




section \<open>Token counts stay within the capacity\<close>

lemma buckets_all_ip_upd:
  "buckets_all P rl \<Longrightarrow> P b \<Longrightarrow> buckets_all P (rl\<lparr>ipLimits := (ipLimits rl)(ip \<mapsto> b)\<rparr>)"
  by (auto simp: buckets_all_def)

lemma buckets_all_key_upd:
  "buckets_all P rl \<Longrightarrow> P b \<Longrightarrow> buckets_all P (rl\<lparr>keyLimits := (keyLimits rl)(key \<mapsto> b)\<rparr>)"
  by (auto simp: buckets_all_def)

lemma buckets_all_mono:
  "buckets_all P rl \<Longrightarrow> (\<And>b. P b \<Longrightarrow> Q b) \<Longrightarrow> buckets_all Q rl"
  by (auto simp: buckets_all_def)

lemma buckets_all_New: "buckets_all P NewRateLimiter"
  by (simp add: buckets_all_def NewRateLimiter_def)

lemma Sub_nonneg: "u \<le> t \<Longrightarrow> 0 \<le> Sub t u"
  by (simp add: Sub_def Let_def)

lemma float64_of_int_nonneg: "0 \<le> n \<Longrightarrow> 0 \<le> float64_of_int n"
  by (simp add: float64_of_int_def round64_nonneg)

lemma Seconds_nonneg:
  assumes "0 \<le> d"
  shows "0 \<le> Seconds d"
proof -
  have q: "0 \<le> go_quot d 1000000000"
    using assms by (simp add: go_quot_def sgn_if pos_imp_zdiv_nonneg_iff)
  have r: "0 \<le> go_rem d 1000000000"
    using assms by (simp add: go_rem_def sgn_if)
  have "0 \<le> fdiv (float64_of_int (go_rem d 1000000000)) 1000000000"
    unfolding fdiv_def using float64_of_int_nonneg [OF r] by (intro round64_nonneg) simp
  with float64_of_int_nonneg [OF q] show ?thesis
    unfolding Seconds_def Let_def fadd_def by (intro round64_nonneg) simp
qed

lemma spec_tryConsume_within:
  assumes "is_float64 (capacity b)"
  shows "tokens (snd (spec_tryConsume t b)) \<le> capacity (snd (spec_tryConsume t b))
       \<and> is_float64 (tokens (snd (spec_tryConsume t b)))
       \<and> is_float64 (capacity (snd (spec_tryConsume t b)))"
proof -
  define r where "r = min (capacity b) (fadd (tokens b) (fmul (Seconds (Sub t (lastRefill b))) (refillRate b)))"
  have rf: "is_float64 r"
    unfolding r_def using assms by (intro is_float64_min) (simp_all add: fadd_def)
  have rc: "r \<le> capacity b" unfolding r_def by simp
  show ?thesis
  proof (cases "1 \<le> r")
    case False
    then show ?thesis using rf rc assms
      by (simp add: spec_tryConsume_def Let_def r_def [symmetric])
  next
    case True
    have "round64 (r - 1) \<le> r"
    proof (cases "r = 1")
      case True
      then show ?thesis by simp
    next
      case False
      with \<open>1 \<le> r\<close> have "0 < r - 1" by simp
      moreover have "r - 1 \<le> r" by simp
      ultimately show ?thesis using rf by (rule round64_le_float)
    qed
    with rc have "fsub r 1 \<le> capacity b" by (simp add: fsub_def)
    then show ?thesis using True assms
      by (simp add: spec_tryConsume_def Let_def r_def [symmetric]) (simp add: fsub_def)
  qed
qed

lemma spec_bucket_for_float:
  assumes "buckets_all (\<lambda>b. tokens b \<le> capacity b \<and> is_float64 (tokens b) \<and> is_float64 (capacity b)) rl"
  shows "is_float64 (capacity (spec_bucket_for (ipLimits rl) ident limit t_new))"
    and "is_float64 (capacity (spec_bucket_for (keyLimits rl) ident limit t_new))"
  using assms
  by (auto simp: spec_bucket_for_def buckets_all_def float64_of_int_def split: option.splits)

lemma allowIP_within:
  assumes "buckets_all (\<lambda>b. tokens b \<le> capacity b \<and> is_float64 (tokens b) \<and> is_float64 (capacity b)) rl"
  shows "buckets_all (\<lambda>b. tokens b \<le> capacity b \<and> is_float64 (tokens b) \<and> is_float64 (capacity b))
           (snd (allowIP rl ip limit t_new t))"
  unfolding allowIP_spec
  using assms spec_tryConsume_within [OF spec_bucket_for_float(1) [OF assms]]
  by (simp add: split_beta buckets_all_ip_upd)

lemma allowKey_within:
  assumes "buckets_all (\<lambda>b. tokens b \<le> capacity b \<and> is_float64 (tokens b) \<and> is_float64 (capacity b)) rl"
  shows "buckets_all (\<lambda>b. tokens b \<le> capacity b \<and> is_float64 (tokens b) \<and> is_float64 (capacity b))
           (snd (allowKey rl key limit t_new t))"
  unfolding allowKey_spec
  using assms spec_tryConsume_within [OF spec_bucket_for_float(2) [OF assms]]
  by (simp add: split_beta buckets_all_key_upd)

lemma Allow_cases:
  "snd (Allow rl ip key cfg clk) =
     (let rl1 = snd (allowIP rl ip (RateLimitPerIP cfg) (ip_new clk) (ip_refill clk))
      in if fst (allowIP rl ip (RateLimitPerIP cfg) (ip_new clk) (ip_refill clk)) \<and> key \<noteq> []
         then snd (allowKey rl1 key (RateLimitPerKey cfg) (key_new clk) (key_refill clk))
         else rl1)"
  by (simp add: Allow_def Let_def split: prod.splits)

lemma Allow_within:
  assumes "buckets_all (\<lambda>b. tokens b \<le> capacity b \<and> is_float64 (tokens b) \<and> is_float64 (capacity b)) rl"
  shows "buckets_all (\<lambda>b. tokens b \<le> capacity b \<and> is_float64 (tokens b) \<and> is_float64 (capacity b))
           (snd (Allow rl ip key cfg clk))"
  unfolding Allow_cases Let_def
  using assms by (simp add: allowIP_within allowKey_within)

lemma Allow_calls_within:
  "buckets_all (\<lambda>b. tokens b \<le> capacity b \<and> is_float64 (tokens b) \<and> is_float64 (capacity b)) rl \<Longrightarrow>
   buckets_all (\<lambda>b. tokens b \<le> capacity b \<and> is_float64 (tokens b) \<and> is_float64 (capacity b))
     (snd (Allow_calls rl cfg calls))"
proof (induction calls arbitrary: rl)
  case Nil
  then show ?case by simp
next
  case (Cons call calls)
  obtain ip key clk where call: "call = (ip, key, clk)" by (cases call)
  have "buckets_all (\<lambda>b. tokens b \<le> capacity b \<and> is_float64 (tokens b) \<and> is_float64 (capacity b))
          (snd (Allow rl ip key cfg clk))"
    using Cons.prems by (rule Allow_within)
  then have "buckets_all (\<lambda>b. tokens b \<le> capacity b \<and> is_float64 (tokens b) \<and> is_float64 (capacity b))
               (snd (Allow_calls (snd (Allow rl ip key cfg clk)) cfg calls))"
    by (rule Cons.IH)
  then show ?case
    by (simp add: call case_prod_beta)
qed

lemma bucket_ok_mono: "bucket_ok T b \<Longrightarrow> T \<le> T' \<Longrightarrow> bucket_ok T' b"
  by (simp add: bucket_ok_def)

lemma spec_tryConsume_ok:
  assumes "bucket_ok T b" and "T \<le> t"
  shows "bucket_ok t (snd (spec_tryConsume t b))"
proof -
  define r where "r = min (capacity b) (fadd (tokens b) (fmul (Seconds (Sub t (lastRefill b))) (refillRate b)))"
  have "0 \<le> Seconds (Sub t (lastRefill b))"
    using assms by (intro Seconds_nonneg Sub_nonneg) (simp add: bucket_ok_def)
  then have "0 \<le> fmul (Seconds (Sub t (lastRefill b))) (refillRate b)"
    unfolding fmul_def using assms(1) by (intro round64_nonneg mult_nonneg_nonneg) (simp_all add: bucket_ok_def)
  then have "0 \<le> fadd (tokens b) (fmul (Seconds (Sub t (lastRefill b))) (refillRate b))"
    unfolding fadd_def using assms(1) by (intro round64_nonneg) (simp add: bucket_ok_def)
  then have r0: "0 \<le> r" unfolding r_def using assms(1) by (simp add: bucket_ok_def)
  have "1 \<le> r \<Longrightarrow> 0 \<le> fsub r 1" unfolding fsub_def by (intro round64_nonneg) simp
  with r0 show ?thesis
    using assms(1) by (simp add: spec_tryConsume_def Let_def bucket_ok_def r_def [symmetric])
qed

lemma spec_bucket_for_ok:
  assumes "buckets_all (bucket_ok T) rl" and "0 \<le> limit" and "T \<le> t_new"
  shows "bucket_ok t_new (spec_bucket_for (ipLimits rl) ident limit t_new)"
    and "bucket_ok t_new (spec_bucket_for (keyLimits rl) ident limit t_new)"
proof -
  have n: "0 \<le> float64_of_int limit" using assms(2) by (rule float64_of_int_nonneg)
  then have "0 \<le> fdiv (float64_of_int limit) 60"
    unfolding fdiv_def by (intro round64_nonneg) simp
  with n have new: "bucket_ok t_new \<lparr>tokens = float64_of_int limit, capacity = float64_of_int limit,
      refillRate = fdiv (float64_of_int limit) 60, lastRefill = t_new\<rparr>"
    by (simp add: bucket_ok_def)
  have old: "\<And>b. ipLimits rl ident = Some b \<or> keyLimits rl ident = Some b \<Longrightarrow> bucket_ok t_new b"
    using assms(1,3) unfolding buckets_all_def by (blast intro: bucket_ok_mono)
  show "bucket_ok t_new (spec_bucket_for (ipLimits rl) ident limit t_new)"
    using new old by (simp add: spec_bucket_for_def split: option.splits)
  show "bucket_ok t_new (spec_bucket_for (keyLimits rl) ident limit t_new)"
    using new old by (simp add: spec_bucket_for_def split: option.splits)
qed

lemma allowIP_ok:
  assumes "buckets_all (bucket_ok T) rl" and "0 \<le> limit" and "T \<le> t_new" and "t_new \<le> t"
  shows "buckets_all (bucket_ok t) (snd (allowIP rl ip limit t_new t))"
proof -
  have "buckets_all (bucket_ok t) rl"
    using assms(1) by (rule buckets_all_mono) (use assms(3,4) in \<open>auto intro: bucket_ok_mono\<close>)
  moreover have "bucket_ok t (snd (spec_tryConsume t (spec_bucket_for (ipLimits rl) ip limit t_new)))"
    using spec_bucket_for_ok(1) [OF assms(1,2,3)] assms(4) by (rule spec_tryConsume_ok)
  ultimately show ?thesis
    unfolding allowIP_spec by (simp add: split_beta buckets_all_ip_upd)
qed

lemma allowKey_ok:
  assumes "buckets_all (bucket_ok T) rl" and "0 \<le> limit" and "T \<le> t_new" and "t_new \<le> t"
  shows "buckets_all (bucket_ok t) (snd (allowKey rl key limit t_new t))"
proof -
  have "buckets_all (bucket_ok t) rl"
    using assms(1) by (rule buckets_all_mono) (use assms(3,4) in \<open>auto intro: bucket_ok_mono\<close>)
  moreover have "bucket_ok t (snd (spec_tryConsume t (spec_bucket_for (keyLimits rl) key limit t_new)))"
    using spec_bucket_for_ok(2) [OF assms(1,2,3)] assms(4) by (rule spec_tryConsume_ok)
  ultimately show ?thesis
    unfolding allowKey_spec by (simp add: split_beta buckets_all_key_upd)
qed

lemma Allow_ok:
  assumes "buckets_all (bucket_ok T) rl"
    and "0 \<le> RateLimitPerIP cfg" and "0 \<le> RateLimitPerKey cfg"
    and "T \<le> ip_new clk" and "ip_new clk \<le> ip_refill clk"
    and "ip_refill clk \<le> key_new clk" and "key_new clk \<le> key_refill clk"
  shows "buckets_all (bucket_ok (key_refill clk)) (snd (Allow rl ip key cfg clk))"
proof -
  let ?rl1 = "snd (allowIP rl ip (RateLimitPerIP cfg) (ip_new clk) (ip_refill clk))"
  have 1: "buckets_all (bucket_ok (ip_refill clk)) ?rl1"
    using assms(1,2,4,5) by (rule allowIP_ok)
  have 2: "buckets_all (bucket_ok (key_refill clk))
             (snd (allowKey ?rl1 key (RateLimitPerKey cfg) (key_new clk) (key_refill clk)))"
    using 1 assms(3,6,7) by (rule allowKey_ok)
  have 3: "buckets_all (bucket_ok (key_refill clk)) ?rl1"
    using 1 by (rule buckets_all_mono) (use assms(6,7) in \<open>auto intro: bucket_ok_mono\<close>)
  show ?thesis
    unfolding Allow_cases Let_def using 2 3 by simp
qed

lemma Allow_calls_ok:
  assumes "0 \<le> RateLimitPerIP cfg" and "0 \<le> RateLimitPerKey cfg"
  shows "buckets_all (bucket_ok T) rl \<Longrightarrow> sorted (T # concat (map clock_readings calls)) \<Longrightarrow>
         \<exists>T'. buckets_all (bucket_ok T') (snd (Allow_calls rl cfg calls))"
proof (induction calls arbitrary: rl T)
  case Nil
  then show ?case by auto
next
  case (Cons call calls)
  obtain ip key clk where call: "call = (ip, key, clk)" by (cases call)
  have "T # concat (map clock_readings (call # calls))
      = T # ip_new clk # ip_refill clk # key_new clk # key_refill clk # concat (map clock_readings calls)"
    by (simp add: call clock_readings_def)
  with Cons.prems(2) have t: "T \<le> ip_new clk" "ip_new clk \<le> ip_refill clk"
      "ip_refill clk \<le> key_new clk" "key_new clk \<le> key_refill clk"
    and rest: "sorted (key_refill clk # concat (map clock_readings calls))"
    by (simp_all only: sorted2)
  have "buckets_all (bucket_ok (key_refill clk)) (snd (Allow rl ip key cfg clk))"
    using Cons.prems(1) assms t by (rule Allow_ok)
  from Cons.IH [OF this rest]
  show ?case
    by (simp add: call case_prod_beta)
qed

lemma allowIP_step:
  "allowIP rl ip limit t_new now =
     (let b0 = refill now (spec_bucket_for (ipLimits rl) ip limit t_new)
      in if 1 \<le> tokens b0
         then (True, rl\<lparr>ipLimits := (ipLimits rl)(ip \<mapsto> b0\<lparr>tokens := fsub (tokens b0) 1\<rparr>)\<rparr>)
         else (False, rl\<lparr>ipLimits := (ipLimits rl)(ip \<mapsto> b0)\<rparr>))"
  by (simp add: allowIP_def spec_bucket_for_def Let_def)

lemma allowKey_step:
  "allowKey rl key limit t_new now =
     (let b0 = refill now (spec_bucket_for (keyLimits rl) key limit t_new)
      in if 1 \<le> tokens b0
         then (True, rl\<lparr>keyLimits := (keyLimits rl)(key \<mapsto> b0\<lparr>tokens := fsub (tokens b0) 1\<rparr>)\<rparr>)
         else (False, rl\<lparr>keyLimits := (keyLimits rl)(key \<mapsto> b0)\<rparr>))"
  by (simp add: allowKey_def spec_bucket_for_def Let_def)

text \<open>
  Claim C3, amended. After any sequence of \<open>Allow\<close> calls on the rate limiter of a new
  gateway every bucket has \<open>tokens \<le> capacity\<close>, both \<^verbatim>\<open>float64\<close> values; when both
  configured limits are non-negative and the clock readings never decrease, it also has
  \<open>0 \<le> tokens\<close>. An allowed call finds at least one token after the refill and stores the
  refilled count minus 1 rounded to \<^verbatim>\<open>float64\<close>, which is exactly one less for a count
  up to \<open>2 ^ 53\<close>; a denied call stores the refilled bucket as it is.
\<close>

theorem bucket_tokens_bounds:
  "(\<forall>ident b. ipLimits (snd (Allow_calls NewRateLimiter cfg calls)) ident = Some b
              \<or> keyLimits (snd (Allow_calls NewRateLimiter cfg calls)) ident = Some b \<longrightarrow>
        tokens b \<le> capacity b \<and> is_float64 (tokens b) \<and> is_float64 (capacity b)
      \<and> (0 \<le> RateLimitPerIP cfg \<and> 0 \<le> RateLimitPerKey cfg
           \<and> sorted (concat (map clock_readings calls)) \<longrightarrow> 0 \<le> tokens b))
   \<and> (fst (allowIP rl ident limit t_new now) \<longrightarrow>
         1 \<le> tokens (refill now (spec_bucket_for (ipLimits rl) ident limit t_new))
       \<and> ipLimits (snd (allowIP rl ident limit t_new now)) ident
           = Some ((refill now (spec_bucket_for (ipLimits rl) ident limit t_new))
                     \<lparr>tokens := fsub (tokens (refill now (spec_bucket_for (ipLimits rl) ident limit t_new))) 1\<rparr>))
   \<and> (\<not> fst (allowIP rl ident limit t_new now) \<longrightarrow>
         ipLimits (snd (allowIP rl ident limit t_new now)) ident
           = Some (refill now (spec_bucket_for (ipLimits rl) ident limit t_new)))
   \<and> (fst (allowKey rl ident limit t_new now) \<longrightarrow>
         1 \<le> tokens (refill now (spec_bucket_for (keyLimits rl) ident limit t_new))
       \<and> keyLimits (snd (allowKey rl ident limit t_new now)) ident
           = Some ((refill now (spec_bucket_for (keyLimits rl) ident limit t_new))
                     \<lparr>tokens := fsub (tokens (refill now (spec_bucket_for (keyLimits rl) ident limit t_new))) 1\<rparr>))
   \<and> (\<not> fst (allowKey rl ident limit t_new now) \<longrightarrow>
         keyLimits (snd (allowKey rl ident limit t_new now)) ident
           = Some (refill now (spec_bucket_for (keyLimits rl) ident limit t_new)))
   \<and> (is_float64 t \<and> 1 \<le> t \<and> t \<le> 2 ^ 53 \<longrightarrow> fsub t 1 = t - 1)"
proof (intro conjI allI impI)
  fix ident' b
  assume b: "ipLimits (snd (Allow_calls NewRateLimiter cfg calls)) ident' = Some b
           \<or> keyLimits (snd (Allow_calls NewRateLimiter cfg calls)) ident' = Some b"
  have "buckets_all (\<lambda>b. tokens b \<le> capacity b \<and> is_float64 (tokens b) \<and> is_float64 (capacity b))
          (snd (Allow_calls NewRateLimiter cfg calls))"
    using buckets_all_New by (rule Allow_calls_within)
  with b have w: "tokens b \<le> capacity b \<and> is_float64 (tokens b) \<and> is_float64 (capacity b)"
    unfolding buckets_all_def by blast
  from w show "tokens b \<le> capacity b" by blast
  from w show "is_float64 (tokens b)" by blast
  from w show "is_float64 (capacity b)" by blast
  assume h: "0 \<le> RateLimitPerIP cfg \<and> 0 \<le> RateLimitPerKey cfg
           \<and> sorted (concat (map clock_readings calls))"
  show "0 \<le> tokens b"
  proof (cases "concat (map clock_readings calls)")
    case Nil
    then have "calls = []" by (cases calls) (auto simp: clock_readings_def)
    with b show ?thesis by (simp add: NewRateLimiter_def)
  next
    case (Cons T ts)
    then have "sorted (T # concat (map clock_readings calls))"
      using h by simp
    with h buckets_all_New [of "bucket_ok T"]
    obtain T' where "buckets_all (bucket_ok T') (snd (Allow_calls NewRateLimiter cfg calls))"
      using Allow_calls_ok [of cfg T NewRateLimiter calls] by blast
    with b show ?thesis
      unfolding buckets_all_def bucket_ok_def by blast
  qed
next
  assume "is_float64 t \<and> 1 \<le> t \<and> t \<le> 2 ^ 53"
  then show "fsub t 1 = t - 1" by (intro fsub_one_exact) simp_all
qed (auto simp: allowIP_step allowKey_step Let_def split: if_splits)

lemma float64_of_int_2 [simp]: "float64_of_int 2 = 2"
  by (simp add: float64_of_int_def round64_numeral)

lemma float64_of_int_0 [simp]: "float64_of_int 0 = 0"
  by (simp add: float64_of_int_def)

lemma Allow_calls_two:
  "ipLimits (snd (Allow_calls NewRateLimiter config_two calls_two)) ''10.0.0.1''
     = Some \<lparr>tokens = 0, capacity = 2, refillRate = fdiv 2 60, lastRefill = 0\<rparr>"
  by (simp add: calls_two_def Allow_def allowIP_def allowKey_def refill_def min_float_def Let_def
        NewRateLimiter_def config_two_def clock0_def fadd_def fsub_def round64_numeral)

theorem bucket_tokens_bounds_witness:
  "0 \<le> RateLimitPerIP config_two \<and> 0 \<le> RateLimitPerKey config_two
   \<and> sorted (concat (map clock_readings calls_two))
   \<and> ipLimits (snd (Allow_calls NewRateLimiter config_two calls_two)) ''10.0.0.1''
       = Some \<lparr>tokens = 0, capacity = 2, refillRate = fdiv 2 60, lastRefill = 0\<rparr>
   \<and> tokens \<lparr>tokens = 0, capacity = 2, refillRate = fdiv 2 60, lastRefill = 0\<rparr>
       \<le> capacity \<lparr>tokens = 0, capacity = 2, refillRate = fdiv 2 60, lastRefill = 0\<rparr>
   \<and> 0 \<le> tokens \<lparr>tokens = 0, capacity = 2, refillRate = fdiv 2 60, lastRefill = 0\<rparr>
   \<and> fst (allowIP NewRateLimiter ''10.0.0.1'' 2 0 0)
   \<and> map_option tokens (ipLimits (snd (allowIP NewRateLimiter ''10.0.0.1'' 2 0 0)) ''10.0.0.1'') = Some 1
   \<and> \<not> fst (allowIP NewRateLimiter ''10.0.0.1'' 0 0 0)
   \<and> map_option tokens (ipLimits (snd (allowIP NewRateLimiter ''10.0.0.1'' 0 0 0)) ''10.0.0.1'') = Some 0
   \<and> fst (allowKey NewRateLimiter ''key-admin'' 2 0 0)
   \<and> map_option tokens (keyLimits (snd (allowKey NewRateLimiter ''key-admin'' 2 0 0)) ''key-admin'') = Some 1
   \<and> \<not> fst (allowKey NewRateLimiter ''key-admin'' 0 0 0)
   \<and> map_option tokens (keyLimits (snd (allowKey NewRateLimiter ''key-admin'' 0 0 0)) ''key-admin'') = Some 0
   \<and> is_float64 2 \<and> (1::real) \<le> 2 \<and> (2::real) \<le> 2 ^ 53 \<and> fsub 2 1 = 2 - 1"
proof -
  let ?b = "\<lparr>tokens = 0, capacity = 2, refillRate = fdiv 2 60, lastRefill = 0\<rparr>"
  have h: "0 \<le> RateLimitPerIP config_two \<and> 0 \<le> RateLimitPerKey config_two
           \<and> sorted (concat (map clock_readings calls_two))"
    by (simp add: config_two_def calls_two_def clock_readings_def clock0_def)
  note seq = bucket_tokens_bounds [of config_two calls_two, THEN conjunct1, rule_format,
      of "''10.0.0.1''" ?b]
  have bounds: "tokens ?b \<le> capacity ?b" "0 \<le> tokens ?b"
    using seq Allow_calls_two h by blast+
  have ev: "fadd 2 0 = 2" "fadd 0 0 = 0" by (simp_all add: fadd_def round64_numeral)
  have ip2: "fst (allowIP NewRateLimiter ''10.0.0.1'' 2 0 0)"
    by (simp add: allowIP_def refill_def min_float_def Let_def NewRateLimiter_def ev)
  have ip0: "\<not> fst (allowIP NewRateLimiter ''10.0.0.1'' 0 0 0)"
    by (simp add: allowIP_def refill_def min_float_def Let_def NewRateLimiter_def ev)
  have key2: "fst (allowKey NewRateLimiter ''key-admin'' 2 0 0)"
    by (simp add: allowKey_def refill_def min_float_def Let_def NewRateLimiter_def ev)
  have key0: "\<not> fst (allowKey NewRateLimiter ''key-admin'' 0 0 0)"
    by (simp add: allowKey_def refill_def min_float_def Let_def NewRateLimiter_def ev)
  have f2: "is_float64 2 \<and> (1::real) \<le> 2 \<and> (2::real) \<le> 2 ^ 53"
    by (simp add: is_float64_def round64_numeral)
  have ex: "fsub 2 1 = 2 - 1"
    using bucket_tokens_bounds [of _ _ _ _ _ _ _ 2] f2 by blast
  have 1: "map_option tokens (ipLimits (snd (allowIP NewRateLimiter ''10.0.0.1'' 2 0 0)) ''10.0.0.1'') = Some 1"
    using bucket_tokens_bounds [of _ _ NewRateLimiter "''10.0.0.1''" 2 0 0,
        THEN conjunct2, THEN conjunct1, rule_format, OF ip2] ex
    by (simp add: refill_def min_float_def Let_def spec_bucket_for_def NewRateLimiter_def ev)
  have 2: "map_option tokens (ipLimits (snd (allowIP NewRateLimiter ''10.0.0.1'' 0 0 0)) ''10.0.0.1'') = Some 0"
    using bucket_tokens_bounds [of _ _ NewRateLimiter "''10.0.0.1''" 0 0 0,
        THEN conjunct2, THEN conjunct2, THEN conjunct1, rule_format, OF ip0]
    by (simp add: refill_def min_float_def Let_def spec_bucket_for_def NewRateLimiter_def ev)
  have 3: "map_option tokens (keyLimits (snd (allowKey NewRateLimiter ''key-admin'' 2 0 0)) ''key-admin'') = Some 1"
    using bucket_tokens_bounds [of _ _ NewRateLimiter "''key-admin''" 2 0 0,
        THEN conjunct2, THEN conjunct2, THEN conjunct2, THEN conjunct1, rule_format, OF key2] ex
    by (simp add: refill_def min_float_def Let_def spec_bucket_for_def NewRateLimiter_def ev)
  have 4: "map_option tokens (keyLimits (snd (allowKey NewRateLimiter ''key-admin'' 0 0 0)) ''key-admin'') = Some 0"
    using bucket_tokens_bounds [of _ _ NewRateLimiter "''key-admin''" 0 0 0,
        THEN conjunct2, THEN conjunct2, THEN conjunct2, THEN conjunct2, THEN conjunct1, rule_format, OF key0]
    by (simp add: refill_def min_float_def Let_def spec_bucket_for_def NewRateLimiter_def ev)
  from h Allow_calls_two bounds ip2 ip0 key2 key0 1 2 3 4 f2 ex show ?thesis by blast
qed

text \<open>
  With a per-IP limit of \<open>-1\<close> the first call leaves the bucket of the client at \<open>-1\<close>
  tokens; with a per-IP limit of \<open>2 ^ 60\<close> the first call is allowed and leaves the
  refilled count \<open>2 ^ 60\<close> as it is.
\<close>

theorem bucket_tokens_counterexample:
  "map_option tokens
     (ipLimits (snd (Allow_calls NewRateLimiter config_negative [(''10.0.0.1'', [], clock0)]))
        ''10.0.0.1'') = Some (- 1)
   \<and> fst (Allow_calls NewRateLimiter config_huge [(''10.0.0.1'', [], clock0)]) = [True]
   \<and> tokens (refill 0 \<lparr>tokens = float64_of_int 1152921504606846976,
                         capacity = float64_of_int 1152921504606846976,
                         refillRate = fdiv (float64_of_int 1152921504606846976) 60,
                         lastRefill = 0\<rparr>) = 1152921504606846976
   \<and> map_option tokens
       (ipLimits (snd (Allow_calls NewRateLimiter config_huge [(''10.0.0.1'', [], clock0)]))
          ''10.0.0.1'') = Some 1152921504606846976"
  by (simp add: Allow_def allowIP_def refill_def min_float_def Let_def NewRateLimiter_def
        config_negative_def config_huge_def clock0_def float64_of_int_def fadd_def fsub_def
        round64_two_powi_60 round64_two_powi_60_minus_1)

section \<open>Both limits must pass\<close>

text \<open>
  Claim C4, amended. \<open>Allow\<close> returns true exactly when \<open>tryConsume\<close> allows on the IP
  bucket and the key is empty or \<open>tryConsume\<close> allows on the key bucket. When the IP bucket
  denies, \<open>Allow\<close> returns false and the key map is unchanged (no bucket is created in
  it). An allowed call with a non-empty key stores, for the IP and for the key, the
  refilled bucket with its count minus 1 rounded to \<^verbatim>\<open>float64\<close>, which is exactly one
  token less for a count up to \<open>2 ^ 53\<close>.
\<close>

theorem Allow_both_limits:
  "(fst (Allow rl ip key cfg clk) \<longleftrightarrow>
      fst (spec_tryConsume (ip_refill clk)
             (spec_bucket_for (ipLimits rl) ip (RateLimitPerIP cfg) (ip_new clk)))
    \<and> (key = [] \<or>
       fst (spec_tryConsume (key_refill clk)
              (spec_bucket_for (keyLimits rl) key (RateLimitPerKey cfg) (key_new clk)))))
   \<and> (\<not> fst (spec_tryConsume (ip_refill clk)
               (spec_bucket_for (ipLimits rl) ip (RateLimitPerIP cfg) (ip_new clk))) \<longrightarrow>
        \<not> fst (Allow rl ip key cfg clk)
      \<and> keyLimits (snd (Allow rl ip key cfg clk)) = keyLimits rl)
   \<and> (key \<noteq> [] \<and> fst (Allow rl ip key cfg clk) \<longrightarrow>
        snd (Allow rl ip key cfg clk) =
          \<lparr>ipLimits = (ipLimits rl)(ip \<mapsto>
               (refill (ip_refill clk) (spec_bucket_for (ipLimits rl) ip (RateLimitPerIP cfg) (ip_new clk)))
                 \<lparr>tokens := fsub (tokens (refill (ip_refill clk)
                     (spec_bucket_for (ipLimits rl) ip (RateLimitPerIP cfg) (ip_new clk)))) 1\<rparr>),
           keyLimits = (keyLimits rl)(key \<mapsto>
               (refill (key_refill clk) (spec_bucket_for (keyLimits rl) key (RateLimitPerKey cfg) (key_new clk)))
                 \<lparr>tokens := fsub (tokens (refill (key_refill clk)
                     (spec_bucket_for (keyLimits rl) key (RateLimitPerKey cfg) (key_new clk)))) 1\<rparr>)\<rparr>)
   \<and> (is_float64 t \<and> 1 \<le> t \<and> t \<le> 2 ^ 53 \<longrightarrow> fsub t 1 = t - 1)"
proof -
  let ?ipB = "spec_bucket_for (ipLimits rl) ip (RateLimitPerIP cfg) (ip_new clk)"
  let ?keyB = "spec_bucket_for (keyLimits rl) key (RateLimitPerKey cfg) (key_new clk)"
  have ipR: "fst (spec_tryConsume (ip_refill clk) ?ipB) \<longleftrightarrow> 1 \<le> tokens (refill (ip_refill clk) ?ipB)"
    by (simp add: spec_tryConsume_def refill_eq Let_def)
  have keyR: "fst (spec_tryConsume (key_refill clk) ?keyB) \<longleftrightarrow> 1 \<le> tokens (refill (key_refill clk) ?keyB)"
    by (simp add: spec_tryConsume_def refill_eq Let_def)
  have A: "Allow rl ip key cfg clk =
     (if \<not> 1 \<le> tokens (refill (ip_refill clk) ?ipB)
      then (False, rl\<lparr>ipLimits := (ipLimits rl)(ip \<mapsto> refill (ip_refill clk) ?ipB)\<rparr>)
      else if key \<noteq> [] then
        (if \<not> 1 \<le> tokens (refill (key_refill clk) ?keyB)
         then (False, \<lparr>ipLimits = (ipLimits rl)(ip \<mapsto> (refill (ip_refill clk) ?ipB)
                           \<lparr>tokens := fsub (tokens (refill (ip_refill clk) ?ipB)) 1\<rparr>),
                       keyLimits = (keyLimits rl)(key \<mapsto> refill (key_refill clk) ?keyB)\<rparr>)
         else (True, \<lparr>ipLimits = (ipLimits rl)(ip \<mapsto> (refill (ip_refill clk) ?ipB)
                           \<lparr>tokens := fsub (tokens (refill (ip_refill clk) ?ipB)) 1\<rparr>),
                      keyLimits = (keyLimits rl)(key \<mapsto> (refill (key_refill clk) ?keyB)
                           \<lparr>tokens := fsub (tokens (refill (key_refill clk) ?keyB)) 1\<rparr>)\<rparr>))
      else (True, rl\<lparr>ipLimits := (ipLimits rl)(ip \<mapsto> (refill (ip_refill clk) ?ipB)
                           \<lparr>tokens := fsub (tokens (refill (ip_refill clk) ?ipB)) 1\<rparr>)\<rparr>))"
    by (simp add: Allow_def allowIP_step allowKey_step Let_def)
  have E: "is_float64 t \<and> 1 \<le> t \<and> t \<le> 2 ^ 53 \<longrightarrow> fsub t 1 = t - 1"
    by (auto intro: fsub_one_exact)
  show ?thesis
    unfolding ipR keyR A using E by simp
qed

theorem Allow_both_limits_witness:
  "''key-admin'' \<noteq> [] \<and> fst (Allow NewRateLimiter ''10.0.0.1'' ''key-admin'' config_two clock0)
   \<and> map_option tokens
        (ipLimits (snd (Allow NewRateLimiter ''10.0.0.1'' ''key-admin'' config_two clock0)) ''10.0.0.1'')
       = Some 1
   \<and> map_option tokens
        (keyLimits (snd (Allow NewRateLimiter ''10.0.0.1'' ''key-admin'' config_two clock0)) ''key-admin'')
       = Some 999
   \<and> \<not> fst (Allow NewRateLimiter ''10.0.0.1'' ''key-admin'' config_zero clock0)
   \<and> keyLimits (snd (Allow NewRateLimiter ''10.0.0.1'' ''key-admin'' config_zero clock0))
       = keyLimits NewRateLimiter
   \<and> is_float64 1000 \<and> (1::real) \<le> 1000 \<and> (1000::real) \<le> 2 ^ 53 \<and> fsub 1000 1 = 999"
proof -
  note two = Allow_both_limits [of NewRateLimiter "''10.0.0.1''" "''key-admin''" config_two clock0 1000]
  note zero = Allow_both_limits [of NewRateLimiter "''10.0.0.1''" "''key-admin''" config_zero clock0 1000]
  have k: "''key-admin'' \<noteq> []" by simp
  have ev: "fadd 2 0 = 2" "fadd 0 0 = 0" "fadd 1000 0 = 1000" "fsub 2 1 = 1"
      "float64_of_int 1000 = 1000"
    by (simp_all add: fadd_def fsub_def float64_of_int_def round64_numeral)
  have f: "is_float64 1000 \<and> (1::real) \<le> 1000 \<and> (1000::real) \<le> 2 ^ 53"
    by (simp add: is_float64_def round64_numeral)
  have ex: "fsub 1000 1 = 999"
    using two [THEN conjunct2, THEN conjunct2, THEN conjunct2] f by simp
  have ok: "fst (Allow NewRateLimiter ''10.0.0.1'' ''key-admin'' config_two clock0)"
    using two [THEN conjunct1]
    by (simp add: spec_tryConsume_def spec_bucket_for_def Let_def NewRateLimiter_def
          config_two_def clock0_def ev)
  have st: "snd (Allow NewRateLimiter ''10.0.0.1'' ''key-admin'' config_two clock0) =
      \<lparr>ipLimits = [''10.0.0.1'' \<mapsto> \<lparr>tokens = 1, capacity = 2, refillRate = fdiv 2 60, lastRefill = 0\<rparr>],
       keyLimits = [''key-admin'' \<mapsto> \<lparr>tokens = 999, capacity = 1000, refillRate = fdiv 1000 60, lastRefill = 0\<rparr>]\<rparr>"
    using two [THEN conjunct2, THEN conjunct2, THEN conjunct1, rule_format, OF conjI [OF k ok]]
    by (simp add: refill_def min_float_def spec_bucket_for_def Let_def NewRateLimiter_def
          config_two_def clock0_def ev ex)
  have deny: "\<not> fst (spec_tryConsume (ip_refill clock0)
               (spec_bucket_for (ipLimits NewRateLimiter) ''10.0.0.1'' (RateLimitPerIP config_zero)
                  (ip_new clock0)))"
    by (simp add: spec_tryConsume_def spec_bucket_for_def Let_def NewRateLimiter_def
          config_zero_def clock0_def ev)
  note z = zero [THEN conjunct2, THEN conjunct1, rule_format, OF deny]
  from k ok st z f ex show ?thesis by simp
qed

text \<open>
  With both limits \<open>2 ^ 60\<close> an allowed call with a key leaves both buckets at their
  refilled count \<open>2 ^ 60\<close>: no token has been taken from either.
\<close>

theorem Allow_huge_limits_counterexample:
  "fst (Allow NewRateLimiter ''10.0.0.1'' ''key-admin'' config_huge clock0)
   \<and> tokens (refill 0 \<lparr>tokens = float64_of_int 1152921504606846976,
                         capacity = float64_of_int 1152921504606846976,
                         refillRate = fdiv (float64_of_int 1152921504606846976) 60,
                         lastRefill = 0\<rparr>) = 1152921504606846976
   \<and> map_option tokens
       (ipLimits (snd (Allow NewRateLimiter ''10.0.0.1'' ''key-admin'' config_huge clock0)) ''10.0.0.1'')
       = Some 1152921504606846976
   \<and> map_option tokens
       (keyLimits (snd (Allow NewRateLimiter ''10.0.0.1'' ''key-admin'' config_huge clock0)) ''key-admin'')
       = Some 1152921504606846976"
  by (simp add: Allow_def allowIP_def allowKey_def refill_def min_float_def Let_def NewRateLimiter_def
        config_huge_def clock0_def float64_of_int_def fadd_def fsub_def
        round64_two_powi_60 round64_two_powi_60_minus_1)

section \<open>Health probes\<close>

text \<open>
  Claim C5, amended. A probe succeeds when it returns no error and no status other than
  200. The backend is alive after a probe exactly when the probe succeeds: it goes from
  alive to dead iff the probe returns an error or a status other than 200 (other 2xx codes
  included), and from dead to alive iff the probe succeeds. A line is logged iff the
  liveness changed, and it names the new state.
\<close>

theorem health_probe_transitions:
  "(Alive (fst (checkBackendHealth b pr)) \<longleftrightarrow>
      \<not> probe_err pr \<and> (probe_status pr = None \<or> probe_status pr = Some 200))
   \<and> URL (fst (checkBackendHealth b pr)) = URL b
   \<and> (Alive b \<and> \<not> Alive (fst (checkBackendHealth b pr)) \<longleftrightarrow>
        Alive b \<and> (probe_err pr \<or> (\<exists>code. probe_status pr = Some code \<and> code \<noteq> 200)))
   \<and> (\<not> Alive b \<and> Alive (fst (checkBackendHealth b pr)) \<longleftrightarrow>
        \<not> Alive b \<and> \<not> probe_err pr \<and> (probe_status pr = None \<or> probe_status pr = Some 200))
   \<and> (snd (checkBackendHealth b pr) \<noteq> [] \<longleftrightarrow> Alive (fst (checkBackendHealth b pr)) \<noteq> Alive b)
   \<and> (Alive b \<and> \<not> Alive (fst (checkBackendHealth b pr)) \<longrightarrow>
        snd (checkBackendHealth b pr) = [''Backend '' @ URL b @ '' is now unhealthy''])
   \<and> (\<not> Alive b \<and> Alive (fst (checkBackendHealth b pr)) \<longrightarrow>
        snd (checkBackendHealth b pr) = [''Backend '' @ URL b @ '' is now healthy''])"
  by (cases "probe_status pr") (auto simp: checkBackendHealth_def Let_def)

theorem health_probe_transitions_witness:
  "Alive backend_up
   \<and> \<not> Alive (fst (checkBackendHealth backend_up \<lparr>probe_err = True, probe_status = None\<rparr>))
   \<and> snd (checkBackendHealth backend_up \<lparr>probe_err = True, probe_status = None\<rparr>)
       = [''Backend http://localhost:8081 is now unhealthy'']
   \<and> \<not> Alive backend_down
   \<and> Alive (fst (checkBackendHealth backend_down \<lparr>probe_err = False, probe_status = Some 200\<rparr>))
   \<and> snd (checkBackendHealth backend_down \<lparr>probe_err = False, probe_status = Some 200\<rparr>)
       = [''Backend http://localhost:8081 is now healthy'']"
proof -
  note up = health_probe_transitions [of backend_up "\<lparr>probe_err = True, probe_status = None\<rparr>"]
  note down = health_probe_transitions [of backend_down "\<lparr>probe_err = False, probe_status = Some 200\<rparr>"]
  have a: "Alive backend_up" by (simp add: backend_up_def)
  have d: "\<not> Alive backend_down" by (simp add: backend_down_def)
  have 1: "\<not> Alive (fst (checkBackendHealth backend_up \<lparr>probe_err = True, probe_status = None\<rparr>))"
    using up [THEN conjunct1] by simp
  have 2: "Alive (fst (checkBackendHealth backend_down \<lparr>probe_err = False, probe_status = Some 200\<rparr>))"
    using down [THEN conjunct1] by simp
  have 3: "snd (checkBackendHealth backend_up \<lparr>probe_err = True, probe_status = None\<rparr>)
       = [''Backend http://localhost:8081 is now unhealthy'']"
    using up a 1 by (simp add: backend_up_def)
  have 4: "snd (checkBackendHealth backend_down \<lparr>probe_err = False, probe_status = Some 200\<rparr>)
       = [''Backend http://localhost:8081 is now healthy'']"
    using down d 2 by (simp add: backend_down_def)
  from a d 1 2 3 4 show ?thesis by blast
qed

text \<open>
  A probe answered with status 204, a 2xx code, marks a live backend dead and reports it.
\<close>

theorem health_probe_204_counterexample:
  "checkBackendHealth backend_up \<lparr>probe_err = False, probe_status = Some 204\<rparr>
     = (backend_down, [''Backend http://localhost:8081 is now unhealthy''])"
  by (simp add: checkBackendHealth_def backend_up_def backend_down_def)

section \<open>The dispatcher\<close>

lemma Split_not_Nil: "Split s sep \<noteq> []"
  by (induction s) (auto split: list.splits)

lemma hd_Split: "hd (Split s sep) = takeWhile (\<lambda>c. c \<noteq> sep) s"
proof (induction s)
  case Nil
  show ?case by simp
next
  case (Cons c cs)
  then show ?case
    using Split_not_Nil [of cs sep] by (cases "Split cs sep") auto
qed

lemma clientIP_of_takeWhile: "clientIP_of r = takeWhile (\<lambda>c. c \<noteq> CHR '':'') (RemoteAddr r)"
  by (simp add: clientIP_of_def hd_Split)

lemma show_nat_12: "show_nat 12 = ''12''"
  by (simp add: show_nat.simps)

lemma Sprintf_12: "Sprintf_2f_int64 12 = ''%!f(int64=12)''"
  by (simp add: Sprintf_2f_int64_def fmt_int_prec2_def show_nat_12)

lemma handleRequest_unauthorized:
  assumes "req_Path r \<noteq> ''/health''"
    and "X_API_Key r \<noteq> []" and "\<not> APIKeys_get (config g) (X_API_Key r)"
  shows "handleRequest g r env =
     (let e = \<lparr>Timestamp = start_rfc3339 env, Method = req_Method r, Path = req_Path r,
                ClientIP = clientIP_of r, APIKey = X_API_Key r, StatusCode = 401,
                ResponseTime = [], Backend = [], Error = ''invalid API key''\<rparr>
      in (g\<lparr>logger := logger g @ [e]\<rparr>,
          [LogCall e, HttpErrorCall ''Unauthorized: invalid API key'' 401], Returned))"
  using assms by (simp add: handleRequest_def Let_def Log_def)

lemma handleRequest_rate_limited:
  assumes "req_Path r \<noteq> ''/health''"
    and "\<not> (X_API_Key r \<noteq> [] \<and> \<not> APIKeys_get (config g) (X_API_Key r))"
    and "\<not> fst (Allow (rateLimiter g) (clientIP_of r) (X_API_Key r) (config g) (allow_clock env))"
  shows "handleRequest g r env =
     (let e = \<lparr>Timestamp = start_rfc3339 env, Method = req_Method r, Path = req_Path r,
                ClientIP = clientIP_of r, APIKey = X_API_Key r, StatusCode = 429,
                ResponseTime = [], Backend = [], Error = ''rate limit exceeded''\<rparr>
      in (g\<lparr>rateLimiter := snd (Allow (rateLimiter g) (clientIP_of r) (X_API_Key r) (config g)
                                     (allow_clock env)),
             logger := logger g @ [e]\<rparr>,
          [AllowCall, LogCall e, HttpErrorCall ''Rate limit exceeded'' 429], Returned))"
  using assms by (auto simp: handleRequest_def Let_def Log_def split: prod.splits)

lemma handleRequest_no_backend:
  assumes "req_Path r \<noteq> ''/health''"
    and "\<not> (X_API_Key r \<noteq> [] \<and> \<not> APIKeys_get (config g) (X_API_Key r))"
    and "fst (Allow (rateLimiter g) (clientIP_of r) (X_API_Key r) (config g) (allow_clock env))"
    and "fst (Next (lb g)) = None"
  shows "handleRequest g r env =
     (let e = \<lparr>Timestamp = start_rfc3339 env, Method = req_Method r, Path = req_Path r,
                ClientIP = clientIP_of r, APIKey = X_API_Key r, StatusCode = 503,
                ResponseTime = [], Backend = [], Error = ''no healthy backends available''\<rparr>
      in (g\<lparr>rateLimiter := snd (Allow (rateLimiter g) (clientIP_of r) (X_API_Key r) (config g)
                                     (allow_clock env)),
             lb := snd (Next (lb g)),
             logger := logger g @ [e]\<rparr>,
          [AllowCall, NextCall, LogCall e, HttpErrorCall ''Service unavailable'' 503], Returned))"
  using assms by (auto simp: handleRequest_def Let_def Log_def split: prod.splits)

lemma handleRequest_proxied:
  assumes "req_Path r \<noteq> ''/health''"
    and "\<not> (X_API_Key r \<noteq> [] \<and> \<not> APIKeys_get (config g) (X_API_Key r))"
    and "fst (Allow (rateLimiter g) (clientIP_of r) (X_API_Key r) (config g) (allow_clock env))"
    and "fst (Next (lb g)) = Some idx"
    and "snd (proxy env idx r) = ProxyReturns"
  shows "handleRequest g r env =
     (let e = \<lparr>Timestamp = start_rfc3339 env, Method = req_Method r, Path = req_Path r,
                ClientIP = clientIP_of r, APIKey = X_API_Key r,
                StatusCode = statusCode (fold writer_step (fst (proxy env idx r))
                                           \<lparr>statusCode = 200, written = False\<rparr>),
                ResponseTime = Sprintf_2f_int64 (since_ms env),
                Backend = URL (backends (snd (Next (lb g))) ! idx), Error = []\<rparr>
      in (g\<lparr>rateLimiter := snd (Allow (rateLimiter g) (clientIP_of r) (X_API_Key r) (config g)
                                     (allow_clock env)),
             lb := snd (Next (lb g)),
             logger := logger g @ [e]\<rparr>,
          [AllowCall, NextCall, ServeHTTPCall idx, LogCall e], Returned))"
  using assms by (auto simp: handleRequest_def Let_def Log_def split: prod.splits proxy_exit.splits)

lemma handleRequest_proxy_aborts:
  assumes "req_Path r \<noteq> ''/health''"
    and "\<not> (X_API_Key r \<noteq> [] \<and> \<not> APIKeys_get (config g) (X_API_Key r))"
    and "fst (Allow (rateLimiter g) (clientIP_of r) (X_API_Key r) (config g) (allow_clock env))"
    and "fst (Next (lb g)) = Some idx"
    and "snd (proxy env idx r) \<noteq> ProxyReturns"
  shows "handleRequest g r env =
     (g\<lparr>rateLimiter := snd (Allow (rateLimiter g) (clientIP_of r) (X_API_Key r) (config g)
                                (allow_clock env)),
        lb := snd (Next (lb g))\<rparr>,
      [AllowCall, NextCall, ServeHTTPCall idx],
      if snd (proxy env idx r) = ProxyPanics then Panicked else Blocked)"
  using assms by (auto simp: handleRequest_def Let_def Log_def split: prod.splits proxy_exit.splits)

lemma Allow_example_allowed:
  "fst (Allow NewRateLimiter ''127.0.0.1'' [] config_two clock0)"
  by (simp add: Allow_def allowIP_def refill_def min_float_def Let_def config_two_def
        NewRateLimiter_def clock0_def fadd_def round64_numeral)

lemma clientIP_req_plain: "clientIP_of req_plain = ''127.0.0.1''"
  by (simp add: clientIP_of_def req_plain_def)

lemma handleRequest_logs_once_when_returned:
  assumes "req_Path r \<noteq> ''/health''" and "snd (snd (handleRequest g r env)) = Returned"
  shows "(\<exists>e. logger (fst (handleRequest g r env)) = logger g @ [e]
              \<and> filter is_LogCall (fst (snd (handleRequest g r env))) = [LogCall e])
       \<and> (X_API_Key r \<noteq> [] \<and> \<not> APIKeys_get (config g) (X_API_Key r) \<longrightarrow>
            fst (snd (handleRequest g r env))
              = [LogCall (last (logger (fst (handleRequest g r env)))),
                 HttpErrorCall ''Unauthorized: invalid API key'' 401]
          \<and> rateLimiter (fst (handleRequest g r env)) = rateLimiter g
          \<and> lb (fst (handleRequest g r env)) = lb g)
       \<and> (\<not> (X_API_Key r \<noteq> [] \<and> \<not> APIKeys_get (config g) (X_API_Key r))
          \<and> \<not> fst (Allow (rateLimiter g) (clientIP_of r) (X_API_Key r) (config g) (allow_clock env)) \<longrightarrow>
            fst (snd (handleRequest g r env))
              = [AllowCall, LogCall (last (logger (fst (handleRequest g r env)))),
                 HttpErrorCall ''Rate limit exceeded'' 429]
          \<and> lb (fst (handleRequest g r env)) = lb g)"
proof (cases "X_API_Key r \<noteq> [] \<and> \<not> APIKeys_get (config g) (X_API_Key r)")
  case True
  then show ?thesis
    using handleRequest_unauthorized [OF assms(1), of g env] by (simp add: Let_def)
next
  case auth: False
  show ?thesis
  proof (cases "fst (Allow (rateLimiter g) (clientIP_of r) (X_API_Key r) (config g) (allow_clock env))")
    case False
    then show ?thesis
      using handleRequest_rate_limited [OF assms(1) auth, of env] auth by (simp add: Let_def)
  next
    case allowed: True
    show ?thesis
    proof (cases "fst (Next (lb g))")
      case None
      then show ?thesis
        using handleRequest_no_backend [OF assms(1) auth allowed] auth allowed by (simp add: Let_def)
    next
      case (Some idx)
      show ?thesis
      proof (cases "snd (proxy env idx r) = ProxyReturns")
        case True
        then show ?thesis
          using handleRequest_proxied [OF assms(1) auth allowed Some] auth allowed
          by (simp add: Let_def)
      next
        case False
        then show ?thesis
          using handleRequest_proxy_aborts [OF assms(1) auth allowed Some] assms(2)
          by (simp split: if_splits)
      qed
    qed
  qed
qed

text \<open>
  Claim C6 fails on the code. A request that is authorised, within its limits and routed to
  a live backend, and whose proxy panics while copying the response body, leaves
  \<^verbatim>\<open>handleRequest\<close> after the calls to the rate limiter, the load balancer and the proxy:
  no \<open>Log\<close> call is made and the log is as it was.
\<close>

theorem request_not_logged_when_proxy_panics:
  "snd (handleRequest gw_example req_plain env_abort) = ([AllowCall, NextCall, ServeHTTPCall 1], Panicked)
   \<and> filter is_LogCall (fst (snd (handleRequest gw_example req_plain env_abort))) = []
   \<and> logger (fst (handleRequest gw_example req_plain env_abort)) = logger gw_example"
proof -
  have p: "req_Path req_plain \<noteq> ''/health''" by (simp add: req_plain_def)
  have a: "\<not> (X_API_Key req_plain \<noteq> [] \<and> \<not> APIKeys_get (config gw_example) (X_API_Key req_plain))"
    by (simp add: req_plain_def)
  have ok: "fst (Allow (rateLimiter gw_example) (clientIP_of req_plain) (X_API_Key req_plain)
                  (config gw_example) (allow_clock env_abort))"
    using Allow_example_allowed
    by (simp add: clientIP_req_plain gw_example_def env_abort_def) (simp add: req_plain_def)
  have n: "fst (Next (lb gw_example)) = Some 1"
    by (simp add: Next_def Next_loop.simps gw_example_def lb_three_alive_def)
  have x: "snd (proxy env_abort 1 req_plain) \<noteq> ProxyReturns" by (simp add: env_abort_def)
  show ?thesis
    using handleRequest_proxy_aborts [OF p a ok n x]
    by (simp add: env_abort_def)
qed

text \<open>
  Claim C8 fails on the code. For a proxied request that took 12 milliseconds the
  elapsed-time field of the log entry is the text \<^verbatim>\<open>%!f(int64=12)\<close>, not a decimal number.
\<close>

theorem response_time_is_formatting_artifact:
  "map (\<lambda>e. (StatusCode e, Backend e, ResponseTime e))
       (logger (fst (handleRequest gw_example req_plain env_example)))
     = [(200, ''http://b'', ''%!f(int64=12)'')]"
proof -
  have p: "req_Path req_plain \<noteq> ''/health''" by (simp add: req_plain_def)
  have a: "\<not> (X_API_Key req_plain \<noteq> [] \<and> \<not> APIKeys_get (config gw_example) (X_API_Key req_plain))"
    by (simp add: req_plain_def)
  have ok: "fst (Allow (rateLimiter gw_example) (clientIP_of req_plain) (X_API_Key req_plain)
                  (config gw_example) (allow_clock env_example))"
    using Allow_example_allowed
    by (simp add: clientIP_req_plain gw_example_def env_example_def) (simp add: req_plain_def)
  have n: "fst (Next (lb gw_example)) = Some 1"
    by (simp add: Next_def Next_loop.simps gw_example_def lb_three_alive_def)
  have x: "snd (proxy env_example 1 req_plain) = ProxyReturns" by (simp add: env_example_def)
  show ?thesis
    using handleRequest_proxied [OF p a ok n x]
    by (simp add: Let_def Next_def Next_loop.simps gw_example_def lb_three_alive_def
          env_example_def Sprintf_12)
qed

lemma handleRequest_uses_clientIP:
  assumes p: "req_Path r \<noteq> ''/health''"
  shows "(\<forall>e. LogCall e \<in> set (fst (snd (handleRequest g r env))) \<longrightarrow> ClientIP e = clientIP_of r)
      \<and> (snd (snd (handleRequest g r env)) = Returned \<longrightarrow>
           (\<exists>e. logger (fst (handleRequest g r env)) = logger g @ [e] \<and> ClientIP e = clientIP_of r))
      \<and> (\<not> (X_API_Key r \<noteq> [] \<and> \<not> APIKeys_get (config g) (X_API_Key r)) \<longrightarrow>
           rateLimiter (fst (handleRequest g r env))
             = snd (Allow (rateLimiter g) (clientIP_of r) (X_API_Key r) (config g) (allow_clock env)))"
proof -
  consider (unauth) "X_API_Key r \<noteq> [] \<and> \<not> APIKeys_get (config g) (X_API_Key r)"
    | (limited) "\<not> (X_API_Key r \<noteq> [] \<and> \<not> APIKeys_get (config g) (X_API_Key r))"
        "\<not> fst (Allow (rateLimiter g) (clientIP_of r) (X_API_Key r) (config g) (allow_clock env))"
    | (none) "\<not> (X_API_Key r \<noteq> [] \<and> \<not> APIKeys_get (config g) (X_API_Key r))"
        "fst (Allow (rateLimiter g) (clientIP_of r) (X_API_Key r) (config g) (allow_clock env))"
        "fst (Next (lb g)) = None"
    | (proxied) idx where "\<not> (X_API_Key r \<noteq> [] \<and> \<not> APIKeys_get (config g) (X_API_Key r))"
        "fst (Allow (rateLimiter g) (clientIP_of r) (X_API_Key r) (config g) (allow_clock env))"
        "fst (Next (lb g)) = Some idx" "snd (proxy env idx r) = ProxyReturns"
    | (aborted) idx where "\<not> (X_API_Key r \<noteq> [] \<and> \<not> APIKeys_get (config g) (X_API_Key r))"
        "fst (Allow (rateLimiter g) (clientIP_of r) (X_API_Key r) (config g) (allow_clock env))"
        "fst (Next (lb g)) = Some idx" "snd (proxy env idx r) \<noteq> ProxyReturns"
    by (cases "fst (Next (lb g))") auto
  then show ?thesis
  proof cases
    case unauth
    then show ?thesis
      using handleRequest_unauthorized [OF p, of g env] by (auto simp: Let_def)
  next
    case limited
    then show ?thesis
      using handleRequest_rate_limited [OF p limited] by (auto simp: Let_def)
  next
    case none
    then show ?thesis
      using handleRequest_no_backend [OF p none] by (auto simp: Let_def)
  next
    case proxied
    then show ?thesis
      using handleRequest_proxied [OF p proxied] by (auto simp: Let_def)
  next
    case aborted
    then show ?thesis
      using handleRequest_proxy_aborts [OF p aborted] by (auto simp: Let_def split: if_splits)
  qed
qed

text \<open>
  Claim C10, amended. The client identity is the part of the peer address before its first
  colon; it is the \<open>ClientIP\<close> of every log entry of the request, one entry being written
  whenever the handler returns, and the IP passed to the rate limiter. For a peer address
  \<^verbatim>\<open>[host]:port\<close> whose host contains a colon, the identity is \<^verbatim>\<open>[\<close> followed by the
  part of the host before its first colon; it differs from the host, and it is the single
  character \<^verbatim>\<open>[\<close> exactly when the host begins with a colon.
\<close>

theorem client_identity_before_first_colon:
  "clientIP_of r = takeWhile (\<lambda>c. c \<noteq> CHR '':'') (RemoteAddr r)
   \<and> (req_Path r \<noteq> ''/health'' \<longrightarrow>
        (\<forall>e. LogCall e \<in> set (fst (snd (handleRequest g r env))) \<longrightarrow>
              ClientIP e = takeWhile (\<lambda>c. c \<noteq> CHR '':'') (RemoteAddr r))
      \<and> (snd (snd (handleRequest g r env)) = Returned \<longrightarrow>
           (\<exists>e. logger (fst (handleRequest g r env)) = logger g @ [e]
               \<and> ClientIP e = takeWhile (\<lambda>c. c \<noteq> CHR '':'') (RemoteAddr r)))
      \<and> (\<not> (X_API_Key r \<noteq> [] \<and> \<not> APIKeys_get (config g) (X_API_Key r)) \<longrightarrow>
           rateLimiter (fst (handleRequest g r env))
             = snd (Allow (rateLimiter g) (takeWhile (\<lambda>c. c \<noteq> CHR '':'') (RemoteAddr r))
                      (X_API_Key r) (config g) (allow_clock env))))
   \<and> (CHR '':'' \<in> set host \<and> RemoteAddr r = ''['' @ host @ '']:'' @ port \<longrightarrow>
        clientIP_of r = ''['' @ takeWhile (\<lambda>c. c \<noteq> CHR '':'') host
      \<and> clientIP_of r \<noteq> host
      \<and> (clientIP_of r = ''['' \<longleftrightarrow> hd host = CHR '':''))"
proof -
  have tw: "clientIP_of r = takeWhile (\<lambda>c. c \<noteq> CHR '':'') (RemoteAddr r)"
    by (rule clientIP_of_takeWhile)
  have A: "req_Path r \<noteq> ''/health'' \<longrightarrow>
        (\<forall>e. LogCall e \<in> set (fst (snd (handleRequest g r env))) \<longrightarrow>
              ClientIP e = takeWhile (\<lambda>c. c \<noteq> CHR '':'') (RemoteAddr r))
      \<and> (snd (snd (handleRequest g r env)) = Returned \<longrightarrow>
           (\<exists>e. logger (fst (handleRequest g r env)) = logger g @ [e]
               \<and> ClientIP e = takeWhile (\<lambda>c. c \<noteq> CHR '':'') (RemoteAddr r)))
      \<and> (\<not> (X_API_Key r \<noteq> [] \<and> \<not> APIKeys_get (config g) (X_API_Key r)) \<longrightarrow>
           rateLimiter (fst (handleRequest g r env))
             = snd (Allow (rateLimiter g) (takeWhile (\<lambda>c. c \<noteq> CHR '':'') (RemoteAddr r))
                      (X_API_Key r) (config g) (allow_clock env)))"
    unfolding tw [symmetric] using handleRequest_uses_clientIP [of r g env] by blast
  have B: "CHR '':'' \<in> set host \<and> RemoteAddr r = ''['' @ host @ '']:'' @ port \<longrightarrow>
        clientIP_of r = ''['' @ takeWhile (\<lambda>c. c \<noteq> CHR '':'') host
      \<and> clientIP_of r \<noteq> host
      \<and> (clientIP_of r = ''['' \<longleftrightarrow> hd host = CHR '':'')"
  proof (intro impI conjI)
    assume h: "CHR '':'' \<in> set host \<and> RemoteAddr r = ''['' @ host @ '']:'' @ port"
    then have "takeWhile (\<lambda>c. c \<noteq> CHR '':'') (host @ '']:'' @ port) = takeWhile (\<lambda>c. c \<noteq> CHR '':'') host"
      by (intro takeWhile_append1 [of "CHR '':''"]) simp_all
    with h show ip: "clientIP_of r = ''['' @ takeWhile (\<lambda>c. c \<noteq> CHR '':'') host"
      unfolding tw by simp
    have "CHR '':'' \<notin> set (''['' @ takeWhile (\<lambda>c. c \<noteq> CHR '':'') host)"
      by (auto dest: set_takeWhileD)
    with h show "clientIP_of r \<noteq> host"
      unfolding ip by metis
    have "host \<noteq> []" using h by auto
    then show "clientIP_of r = ''['' \<longleftrightarrow> hd host = CHR '':''"
      unfolding ip by (simp add: takeWhile_eq_Nil_iff)
  qed
  from tw A B show ?thesis by blast
qed

theorem client_identity_before_first_colon_witness:
  "req_Path req_ipv6 \<noteq> ''/health'' \<and> CHR '':'' \<in> set ''2001:db8::1''
   \<and> RemoteAddr req_ipv6 = ''['' @ ''2001:db8::1'' @ '']:'' @ ''54321''
   \<and> \<not> (X_API_Key req_ipv6 \<noteq> [] \<and> \<not> APIKeys_get (config gw_example) (X_API_Key req_ipv6))
   \<and> snd (snd (handleRequest gw_example req_ipv6 env_example)) = Returned
   \<and> clientIP_of req_ipv6 = ''[2001''
   \<and> map ClientIP (logger (fst (handleRequest gw_example req_ipv6 env_example))) = [''[2001'']
   \<and> rateLimiter (fst (handleRequest gw_example req_ipv6 env_example))
       = snd (Allow NewRateLimiter ''[2001'' [] config_two clock0)"
proof -
  note t = client_identity_before_first_colon
    [of req_ipv6 gw_example env_example "''2001:db8::1''" "''54321''"]
  have p: "req_Path req_ipv6 \<noteq> ''/health''" by (simp add: req_ipv6_def)
  have h: "CHR '':'' \<in> set ''2001:db8::1'' \<and> RemoteAddr req_ipv6 = ''['' @ ''2001:db8::1'' @ '']:'' @ ''54321''"
    by (simp add: req_ipv6_def)
  have a: "\<not> (X_API_Key req_ipv6 \<noteq> [] \<and> \<not> APIKeys_get (config gw_example) (X_API_Key req_ipv6))"
    by (simp add: req_ipv6_def)
  have ip: "clientIP_of req_ipv6 = ''[2001''"
    using t [THEN conjunct2, THEN conjunct2] h by simp
  have tw: "takeWhile (\<lambda>c. c \<noteq> CHR '':'') (RemoteAddr req_ipv6) = ''[2001''"
    using t [THEN conjunct1] ip by simp
  have ok: "fst (Allow (rateLimiter gw_example) (clientIP_of req_ipv6) (X_API_Key req_ipv6)
                  (config gw_example) (allow_clock env_example))"
    by (simp add: ip Allow_def allowIP_def refill_def min_float_def Let_def config_two_def
        NewRateLimiter_def clock0_def fadd_def round64_numeral gw_example_def env_example_def
        req_ipv6_def)
  have n: "fst (Next (lb gw_example)) = Some 1"
    by (simp add: Next_def Next_loop.simps gw_example_def lb_three_alive_def)
  have x: "snd (proxy env_example 1 req_ipv6) = ProxyReturns" by (simp add: env_example_def)
  have r: "snd (snd (handleRequest gw_example req_ipv6 env_example)) = Returned"
    using handleRequest_proxied [OF p a ok n x] by (simp add: Let_def)
  have lg: "map ClientIP (logger (fst (handleRequest gw_example req_ipv6 env_example))) = [''[2001'']"
    using t [THEN conjunct2, THEN conjunct1] p r unfolding tw by (auto simp: gw_example_def)
  have rl: "rateLimiter (fst (handleRequest gw_example req_ipv6 env_example))
       = snd (Allow NewRateLimiter ''[2001'' [] config_two clock0)"
    using t [THEN conjunct2, THEN conjunct1] p a unfolding tw
    by (simp add: gw_example_def req_ipv6_def env_example_def)
  from p h a r ip lg rl show ?thesis by blast
qed

text \<open>
  Two IPv6 peers whose identities are neither \<^verbatim>\<open>[\<close> nor equal to each other.
\<close>

theorem ipv6_identity_counterexample:
  "clientIP_of req_ipv6 = ''[2001'' \<and> clientIP_of req_ipv6_other = ''[fe80''"
  by (simp add: clientIP_of_def req_ipv6_def req_ipv6_other_def)

section \<open>Locks\<close>











end
